theory Spec2Isabelle
  imports Main "HOL-Library.Word"
begin

unbundle bit_operations_syntax

section \<open>The LibusbToWebusbAdaptor of the Smart Card Connector\<close>

text \<open>
  A shallow embedding of \<^verbatim>\<open>libusb-to-webusb-adaptor.js\<close>. The names are those of the
  JavaScript source. A thrown \<^verbatim>\<open>Error\<close> and a rejected promise are values of the type
  \<open>error\<close>; an object that the source mutates in place is passed in and returned.
\<close>

subsection \<open>Errors\<close>

datatype error =
    NoDeviceWithId nat \<comment> \<open>\<^verbatim>\<open>No device with ID ...\<close>\<close>
  | UnknownDeviceHandle nat \<comment> \<open>\<^verbatim>\<open>Unknown device handle ...\<close>, thrown by closeDeviceHandle\<close>
  | NoDeviceHandle nat \<comment> \<open>\<^verbatim>\<open>No device handle ...\<close>, thrown by getDeviceByIdAndHandleOrThrow_\<close>
  | RangeError \<comment> \<open>a DataView read outside the view\<close>
  | TypeError \<comment> \<open>a property read on a value that is not an object\<close>
  | HostError nat \<comment> \<open>the reason with which WebUSB rejects a promise\<close>
  | UnknownTransferRequestType \<comment> \<open>\<^verbatim>\<open>Unknown LibusbJs transfer request type ...\<close>\<close>
  | UnknownTransferRecipient \<comment> \<open>\<^verbatim>\<open>Unknown LibusbJs transfer recipient ...\<close>\<close>
  | TransferFailed string \<comment> \<open>\<^verbatim>\<open>Transfer failed with status ...\<close>\<close>

text \<open>How a piece of code ends: it returns, or it throws.\<close>

datatype completion = Returned | Thrown error

subsection \<open>The LibusbJs descriptor tree\<close>

type_synonym byte = "8 word"

text \<open>
  The enumerations of \<^verbatim>\<open>GSC.LibusbProxyDataModel\<close> are declared outside this file; only
  the members that the adaptor names are listed. The property \<^verbatim>\<open>extraData\<close> of a node
  is absent (\<open>None\<close>) until \<^verbatim>\<open>appendExtraData\<close> writes it.
\<close>

datatype LibusbJsDirection = IN | OUT

datatype LibusbJsEndpointType = BULK | INTERRUPT | ISOCHRONOUS

record LibusbJsEndpointDescriptor =
  endpointAddress :: nat
  direction :: LibusbJsDirection
  endpointType :: LibusbJsEndpointType
  maxPacketSize :: nat
  endpointExtraData :: "byte list option"

record LibusbJsInterfaceDescriptor =
  interfaceNumber :: nat
  interfaceClass :: nat
  interfaceSubclass :: nat
  interfaceProtocol :: nat
  endpoints :: "LibusbJsEndpointDescriptor list"
  interfaceExtraData :: "byte list option"

record LibusbJsConfigurationDescriptor =
  active :: bool
  configurationValue :: nat
  interfaces :: "LibusbJsInterfaceDescriptor list"
  configurationExtraData :: "byte list option"

subsection \<open>appendExtraData\<close>

text \<open>
  \<^verbatim>\<open>goog.object.get(libusbJsObject, 'extraData', new ArrayBuffer(0))\<close> reads the old
  bytes, empty when the property is absent; the new buffer is the old bytes followed by
  the appended ones.
\<close>

definition appendExtraData :: "byte list \<Rightarrow> byte list option \<Rightarrow> byte list option" where
  "appendExtraData extraDataToAppend old =
     Some ((case old of None \<Rightarrow> [] | Some oldExtraData \<Rightarrow> oldExtraData) @ extraDataToAppend)"

text \<open>
  The object that \<^verbatim>\<open>currentEndpoint || currentInterface || libusbJsConfiguration\<close>
  selects. \<^verbatim>\<open>currentInterface\<close> is a reference to an element of the array
  \<^verbatim>\<open>interfaces\<close>, held here as its index; \<^verbatim>\<open>currentEndpoint\<close> is a reference to an
  element of the \<^verbatim>\<open>endpoints\<close> of the interface that was current when it was found, held
  as the pair of indices.
\<close>

datatype targetObject = TargetEndpoint nat nat | TargetInterface nat | TargetConfiguration

definition chooseTarget :: "nat option \<Rightarrow> (nat \<times> nat) option \<Rightarrow> targetObject" where
  "chooseTarget currentInterface currentEndpoint =
     (case currentEndpoint of
        Some (i, j) \<Rightarrow> TargetEndpoint i j
      | None \<Rightarrow> (case currentInterface of Some i \<Rightarrow> TargetInterface i | None \<Rightarrow> TargetConfiguration))"

definition appendToEndpoint :: "byte list \<Rightarrow> LibusbJsEndpointDescriptor \<Rightarrow> LibusbJsEndpointDescriptor" where
  "appendToEndpoint bs e = e\<lparr>endpointExtraData := appendExtraData bs (endpointExtraData e)\<rparr>"

definition appendToInterface :: "byte list \<Rightarrow> LibusbJsInterfaceDescriptor \<Rightarrow> LibusbJsInterfaceDescriptor" where
  "appendToInterface bs i = i\<lparr>interfaceExtraData := appendExtraData bs (interfaceExtraData i)\<rparr>"

text \<open>
  The write through the reference. An index always comes from \<^verbatim>\<open>find\<close> on the same
  array, whose length never changes, so it is in range; out of range nothing is written.
\<close>

definition modifyAt :: "nat \<Rightarrow> ('a \<Rightarrow> 'a) \<Rightarrow> 'a list \<Rightarrow> 'a list" where
  "modifyAt i f xs = (if i < length xs then xs[i := f (xs ! i)] else xs)"

fun appendToTarget ::
  "byte list \<Rightarrow> targetObject \<Rightarrow> LibusbJsConfigurationDescriptor \<Rightarrow> LibusbJsConfigurationDescriptor" where
  "appendToTarget bs TargetConfiguration c =
     c\<lparr>configurationExtraData := appendExtraData bs (configurationExtraData c)\<rparr>"
| "appendToTarget bs (TargetInterface i) c =
     c\<lparr>interfaces := modifyAt i (appendToInterface bs) (interfaces c)\<rparr>"
| "appendToTarget bs (TargetEndpoint i j) c =
     c\<lparr>interfaces :=
         modifyAt i (\<lambda>itf. itf\<lparr>endpoints := modifyAt j (appendToEndpoint bs) (endpoints itf)\<rparr>)
           (interfaces c)\<rparr>"

subsection \<open>Reading the descriptor blob\<close>

text \<open>A DataView over the received bytes: a read outside the view throws RangeError.\<close>

definition getUint8 :: "byte list \<Rightarrow> nat \<Rightarrow> error + nat" where
  "getUint8 view byteOffset =
     (if byteOffset < length view then Inr (unat (view ! byteOffset)) else Inl RangeError)"

definition getUint16 :: "byte list \<Rightarrow> nat \<Rightarrow> error + nat" where
  \<comment> \<open>\<^verbatim>\<open>getUint16(byteOffset, /*littleEndian=*/ true)\<close>\<close>
  "getUint16 view byteOffset =
     (if byteOffset + 2 \<le> length view
      then Inr (unat (view ! byteOffset) + 256 * unat (view ! (byteOffset + 1)))
      else Inl RangeError)"

text \<open>\<^verbatim>\<open>Array.prototype.find\<close>, returning the position of the element instead of the element.\<close>

fun findIndex :: "('a \<Rightarrow> bool) \<Rightarrow> 'a list \<Rightarrow> nat option" where
  "findIndex P [] = None"
| "findIndex P (x # xs) =
     (if P x then Some 0 else (case findIndex P xs of None \<Rightarrow> None | Some i \<Rightarrow> Some (Suc i)))"

definition CONFIGURATION_DESCRIPTOR_TYPE :: nat where "CONFIGURATION_DESCRIPTOR_TYPE = 0x02"
definition INTERFACE_DESCRIPTOR_TYPE :: nat where "INTERFACE_DESCRIPTOR_TYPE = 0x04"
definition ENDPOINT_DESCRIPTOR_TYPE :: nat where "ENDPOINT_DESCRIPTOR_TYPE = 0x05"
definition CONFIGURATION_DESCRIPTOR_LENGTH :: nat where "CONFIGURATION_DESCRIPTOR_LENGTH = 9"
definition INTERFACE_DESCRIPTOR_LENGTH :: nat where "INTERFACE_DESCRIPTOR_LENGTH = 9"
definition ENDPOINT_DESCRIPTOR_LENGTH :: nat where "ENDPOINT_DESCRIPTOR_LENGTH = 7"

text \<open>The local variables of the parsing loop, together with the tree they point into.\<close>

record walkState =
  currentInterface :: "nat option"
  currentEndpoint :: "(nat \<times> nat) option"
  libusbJsConfiguration :: LibusbJsConfigurationDescriptor

text \<open>
  The \<^verbatim>\<open>switch (descriptorType)\<close> of the loop body, for the descriptor of length
  \<open>descriptorLength\<close> at \<open>offset\<close>.
\<close>

definition switchDescriptorType ::
  "byte list \<Rightarrow> nat \<Rightarrow> nat \<Rightarrow> nat \<Rightarrow> walkState \<Rightarrow> error + walkState" where
  "switchDescriptorType descriptors offset descriptorLength descriptorType w =
     (if descriptorType = CONFIGURATION_DESCRIPTOR_TYPE then
        (if descriptorLength < CONFIGURATION_DESCRIPTOR_LENGTH then Inr w
         else Inr w)
      else if descriptorType = INTERFACE_DESCRIPTOR_TYPE then
        (if descriptorLength < INTERFACE_DESCRIPTOR_LENGTH then Inr w
         else case getUint8 descriptors (offset + 2) of
           Inl e \<Rightarrow> Inl e
         | Inr interfaceNumber' \<Rightarrow>
             Inr (w\<lparr>currentInterface :=
                      findIndex (\<lambda>libusbJsInterface. interfaceNumber libusbJsInterface = interfaceNumber')
                        (interfaces (libusbJsConfiguration w)),
                    currentEndpoint := None\<rparr>))
      else if descriptorType = ENDPOINT_DESCRIPTOR_TYPE then
        (if descriptorLength < ENDPOINT_DESCRIPTOR_LENGTH then Inr w
         else case getUint8 descriptors (offset + 2) of
           Inl e \<Rightarrow> Inl e
         | Inr endpointAddress' \<Rightarrow>
             (case currentInterface w of
                Some i \<Rightarrow>
                  Inr (w\<lparr>currentEndpoint :=
                           (if i < length (interfaces (libusbJsConfiguration w))
                            then map_option (Pair i)
                                   (findIndex (\<lambda>libusbJsEndpoint. endpointAddress libusbJsEndpoint = endpointAddress')
                                      (endpoints (interfaces (libusbJsConfiguration w) ! i)))
                            else None)\<rparr>)
              | None \<Rightarrow> Inr (w\<lparr>currentEndpoint := None\<rparr>)))
      else
        Inr (w\<lparr>libusbJsConfiguration :=
                 appendToTarget (take descriptorLength (drop offset descriptors))
                   (chooseTarget (currentInterface w) (currentEndpoint w))
                   (libusbJsConfiguration w)\<rparr>))"

text \<open>
  The loop \<^verbatim>\<open>for (let offset = 0; offset < totalLength;)\<close>. It yields the tree as the
  loop leaves it, and how the enclosing function ends there: a malformed length returns
  from the function, a truncated descriptor breaks out of the loop, after which the
  function returns as well.
\<close>

function parseDescriptors ::
  "byte list \<Rightarrow> nat \<Rightarrow> nat \<Rightarrow> walkState \<Rightarrow> LibusbJsConfigurationDescriptor \<times> completion" where
  "parseDescriptors descriptors totalLength offset w =
     (if offset < totalLength then
        (case getUint8 descriptors offset of
           Inl e \<Rightarrow> (libusbJsConfiguration w, Thrown e)
         | Inr descriptorLength \<Rightarrow>
             if descriptorLength < 2 then (libusbJsConfiguration w, Returned)
             else if offset + descriptorLength > totalLength then (libusbJsConfiguration w, Returned)
             else (case getUint8 descriptors (offset + 1) of
                     Inl e \<Rightarrow> (libusbJsConfiguration w, Thrown e)
                   | Inr descriptorType \<Rightarrow>
                       (case switchDescriptorType descriptors offset descriptorLength descriptorType w of
                          Inl e \<Rightarrow> (libusbJsConfiguration w, Thrown e)
                        | Inr w' \<Rightarrow>
                            parseDescriptors descriptors totalLength (offset + descriptorLength) w')))
      else (libusbJsConfiguration w, Returned))"
  by pat_completeness auto
termination
  by (relation "measure (\<lambda>(descriptors, totalLength, offset, w). totalLength - offset)") auto

declare parseDescriptors.simps [simp del]

subsection \<open>The WebUSB host\<close>

text \<open>
  The adaptor reaches the device only through methods of WebUSB that return promises.
  \<open>usbDevice\<close> is the identity of a USBDevice object (\<^verbatim>\<open>===\<close> compares it).
\<close>

type_synonym usbDevice = nat

record controlTransferParameters =
  requestType :: string
  recipient :: string
  request :: nat
  value' :: int
  index' :: nat

record USBInTransferResult =
  status :: string
  data :: "byte list option"

record USBOutTransferResult =
  out_status :: string
  bytesWritten :: nat

text \<open>The calls of WebUSB methods, each with the USBDevice object it is made on.\<close>

datatype hostCall =
    UsbGetDevices
  | UsbOpen usbDevice
  | UsbClose usbDevice
  | UsbControlTransferIn usbDevice controlTransferParameters nat
  | UsbControlTransferOut usbDevice controlTransferParameters "byte list"
  | UsbTransferIn usbDevice nat nat
  | UsbTransferOut usbDevice nat "byte list"
  | UsbClaimInterface usbDevice nat
  | UsbReleaseInterface usbDevice nat
  | UsbReset usbDevice

text \<open>The values that promises are fulfilled with, by WebUSB and by the adaptor.\<close>

datatype jsValue =
    Undefined
  | Number nat
  | Devices "usbDevice list"
  | InTransferResult USBInTransferResult
  | OutTransferResult USBOutTransferResult
  | TransferResult "byte list option" \<comment> \<open>a LibusbJsTransferResult, with or without \<^verbatim>\<open>receivedData\<close>\<close>
  | DeviceIds "nat option list"
  | Configurations "LibusbJsConfigurationDescriptor list"

text \<open>How a promise is settled: fulfilled with a value, or rejected with a reason.\<close>

datatype 'a settlement = Resolves 'a | Rejects error

text \<open>
  For code that is followed from one \<^verbatim>\<open>await\<close> to the next without looking at what
  else runs in between, the host is a state machine of any type \<open>'h\<close> that answers each
  call with a settlement. Nothing is assumed about its answers.
\<close>

type_synonym 'h host = "hostCall \<Rightarrow> 'h \<Rightarrow> jsValue settlement \<times> 'h"

subsection \<open>fetchAndFillConfigurationExtraDataForOpenedDevice\<close>

definition GET_DESCRIPTOR_REQUEST :: nat where "GET_DESCRIPTOR_REQUEST = 0x06"

text \<open>
  \<^verbatim>\<open>(CONFIGURATION_DESCRIPTOR_TYPE << 8) | (configurationValue - 1)\<close>: the operands of
  \<^verbatim>\<open>|\<close> are taken as 32-bit integers and so is the result.
\<close>

definition controlRequestValue :: "nat \<Rightarrow> int" where
  "controlRequestValue configurationValue' =
     sint ((push_bit 8 (word_of_nat CONFIGURATION_DESCRIPTOR_TYPE) :: 32 word)
           OR word_of_int (int configurationValue' - 1))"

definition getDescriptorParameters :: "LibusbJsConfigurationDescriptor \<Rightarrow> controlTransferParameters" where
  "getDescriptorParameters c =
     \<lparr>requestType = ''standard'', recipient = ''device'', request = GET_DESCRIPTOR_REQUEST,
      value' = controlRequestValue (configurationValue c), index' = 0\<rparr>"

text \<open>
  After the first transfer: \<open>Inr None\<close> when the function returns at once, otherwise
  \<^verbatim>\<open>wTotalLength\<close> as read from the header, or the RangeError of that read.
\<close>

definition readTotalLength :: "USBInTransferResult \<Rightarrow> error + nat option" where
  "readTotalLength transferResult =
     (if status transferResult \<noteq> ''ok'' \<or> data transferResult = None then Inr None
      else case getUint16 (the (data transferResult)) 2 of
        Inl e \<Rightarrow> Inl e
      | Inr totalLength \<Rightarrow> Inr (Some totalLength))"

text \<open>After the second transfer: the checks on its result, then the parsing loop.\<close>

definition fillFromDescriptors ::
  "nat \<Rightarrow> USBInTransferResult \<Rightarrow> LibusbJsConfigurationDescriptor
   \<Rightarrow> LibusbJsConfigurationDescriptor \<times> completion" where
  "fillFromDescriptors totalLength transferResult c =
     (if status transferResult \<noteq> ''ok'' \<or> data transferResult = None then (c, Returned)
      else let descriptors = the (data transferResult) in
        if length descriptors \<noteq> totalLength then (c, Returned)
        else parseDescriptors descriptors totalLength 0
               \<lparr>currentInterface = None, currentEndpoint = None, libusbJsConfiguration = c\<rparr>)"

text \<open>
  A host that fulfils the promise of a transfer with something that is not a transfer
  result makes the read of \<^verbatim>\<open>status\<close> throw.
\<close>

definition fetchAndFillConfigurationExtraDataForOpenedDevice ::
  "'h host \<Rightarrow> usbDevice \<Rightarrow> LibusbJsConfigurationDescriptor \<Rightarrow> 'h
   \<Rightarrow> (LibusbJsConfigurationDescriptor \<times> completion) \<times> 'h" where
  "fetchAndFillConfigurationExtraDataForOpenedDevice host webusbDevice c h =
     (case host (UsbControlTransferIn webusbDevice (getDescriptorParameters c)
                   CONFIGURATION_DESCRIPTOR_LENGTH) h of
        (Rejects e, h1) \<Rightarrow> ((c, Thrown e), h1)
      | (Resolves (InTransferResult transferResult), h1) \<Rightarrow>
          (case readTotalLength transferResult of
             Inl e \<Rightarrow> ((c, Thrown e), h1)
           | Inr None \<Rightarrow> ((c, Returned), h1)
           | Inr (Some totalLength) \<Rightarrow>
               (case host (UsbControlTransferIn webusbDevice (getDescriptorParameters c) totalLength) h1 of
                  (Rejects e, h2) \<Rightarrow> ((c, Thrown e), h2)
                | (Resolves (InTransferResult transferResult2), h2) \<Rightarrow>
                    (fillFromDescriptors totalLength transferResult2 c, h2)
                | (Resolves _, h2) \<Rightarrow> ((c, Thrown TypeError), h2)))
      | (Resolves _, h1) \<Rightarrow> ((c, Thrown TypeError), h1))"

subsection \<open>fetchAndFillConfigurationExtraData\<close>

text \<open>
  The device is opened, the work is done inside \<^verbatim>\<open>try\<close>, and \<^verbatim>\<open>finally\<close> closes the
  device: a rejected close replaces the completion of the \<^verbatim>\<open>try\<close> block.
\<close>

definition fetchAndFillConfigurationExtraData ::
  "'h host \<Rightarrow> usbDevice \<Rightarrow> LibusbJsConfigurationDescriptor \<Rightarrow> 'h
   \<Rightarrow> (LibusbJsConfigurationDescriptor \<times> completion) \<times> 'h" where
  "fetchAndFillConfigurationExtraData host webusbDevice c h =
     (case host (UsbOpen webusbDevice) h of
        (Rejects e, h1) \<Rightarrow> ((c, Thrown e), h1)
      | (Resolves _, h1) \<Rightarrow>
          (case fetchAndFillConfigurationExtraDataForOpenedDevice host webusbDevice c h1 of
             ((c', done), h2) \<Rightarrow>
               (case host (UsbClose webusbDevice) h2 of
                  (Rejects e, h3) \<Rightarrow> ((c', Thrown e), h3)
                | (Resolves _, h3) \<Rightarrow> ((c', done), h3))))"

subsection \<open>From WebUSB descriptors to LibusbJs descriptors\<close>

text \<open>The properties of the WebUSB objects that the adaptor reads.\<close>

record USBEndpoint =
  usb_endpointNumber :: nat
  usb_direction :: string
  usb_type :: string
  usb_packetSize :: nat

record USBAlternateInterface =
  usb_interfaceClass :: nat
  usb_interfaceSubclass :: nat
  usb_interfaceProtocol :: nat
  usb_endpoints :: "USBEndpoint list"

record USBInterface =
  usb_interfaceNumber :: nat
  usb_alternates :: "USBAlternateInterface list"

record USBConfiguration =
  usb_configurationValue :: nat
  usb_interfaces :: "USBInterface list"

record USBDevice =
  usb_configuration :: "USBConfiguration option"
  usb_configurations :: "USBConfiguration list"

definition getLibusbJsEndpointType :: "string \<Rightarrow> LibusbJsEndpointType option" where
  "getLibusbJsEndpointType webusbEndpointType =
     (if webusbEndpointType = ''bulk'' then Some BULK
      else if webusbEndpointType = ''interrupt'' then Some INTERRUPT
      else if webusbEndpointType = ''isochronous'' then Some ISOCHRONOUS
      else None)"

definition getLibusbJsEndpointDescriptor :: "USBEndpoint \<Rightarrow> LibusbJsEndpointDescriptor option" where
  "getLibusbJsEndpointDescriptor webusbEndpoint =
     (case getLibusbJsEndpointType (usb_type webusbEndpoint) of
        None \<Rightarrow> None
      | Some endpointType' \<Rightarrow>
          Some \<lparr>endpointAddress =
                   usb_endpointNumber webusbEndpoint
                   + (if usb_direction webusbEndpoint = ''in'' then 2 ^ 7 else 0),
                 direction = (if usb_direction webusbEndpoint = ''in'' then IN else OUT),
                 endpointType = endpointType',
                 maxPacketSize = usb_packetSize webusbEndpoint,
                 endpointExtraData = None\<rparr>)"

definition getLibusbJsInterfaceDescriptor :: "USBInterface \<Rightarrow> LibusbJsInterfaceDescriptor option" where
  "getLibusbJsInterfaceDescriptor webusbInterface =
     (case usb_alternates webusbInterface of
        [] \<Rightarrow> None
      | webusbAlternateInterface # _ \<Rightarrow>
          Some \<lparr>interfaceNumber = usb_interfaceNumber webusbInterface,
                 interfaceClass = usb_interfaceClass webusbAlternateInterface,
                 interfaceSubclass = usb_interfaceSubclass webusbAlternateInterface,
                 interfaceProtocol = usb_interfaceProtocol webusbAlternateInterface,
                 endpoints =
                   List.map_filter getLibusbJsEndpointDescriptor (usb_endpoints webusbAlternateInterface),
                 interfaceExtraData = None\<rparr>)"

definition getLibusbJsConfigurationDescriptor ::
  "USBConfiguration \<Rightarrow> nat option \<Rightarrow> LibusbJsConfigurationDescriptor" where
  "getLibusbJsConfigurationDescriptor webusbConfiguration activeConfigurationValue =
     \<lparr>active = (Some (usb_configurationValue webusbConfiguration) = activeConfigurationValue),
      configurationValue = usb_configurationValue webusbConfiguration,
      interfaces = List.map_filter getLibusbJsInterfaceDescriptor (usb_interfaces webusbConfiguration),
      configurationExtraData = None\<rparr>"

subsection \<open>The adaptor, its DeviceState objects, promises and the job queue\<close>

text \<open>
  A DeviceState object is known by its identity, a number handed out when the object is
  created. A promise is known by the kind of function that created it and a serial
  number: \<open>Host\<close> for a promise returned by a method of WebUSB, \<open>Opening\<close> for one
  returned by \<^verbatim>\<open>openWebusbDevice\<close> (named with the DeviceState object that the function
  was called with), \<open>Result\<close> for one that a method of the adaptor returns to its
  caller. The serial numbers come from one counter, so that no two promises share one. \<open>deviceStates\<close> and \<open>promises\<close> give the current content of
  every object, so that a continuation that holds a reference sees the writes made
  through any other reference to the same object.
\<close>

type_synonym deviceStateRef = nat

datatype promise = Host nat | Opening deviceStateRef nat | Result nat

record DeviceState =
  webusbDevice :: usbDevice
  handles :: "nat set"
  openOperationPromise :: "promise option"
  closeOperationPromise :: "promise option"

text \<open>
  The local variables of one call of \<^verbatim>\<open>getConfigurations\<close>: the device, the list
  built so far, the configuration of the current iteration (the object that the calls of
  \<^verbatim>\<open>fetchAndFillConfigurationExtraData\<close> and
  \<^verbatim>\<open>fetchAndFillConfigurationExtraDataForOpenedDevice\<close> receive and fill), the
  configurations still to visit, and the promise that \<^verbatim>\<open>getConfigurations\<close> returned.
\<close>

record getConfigurationsFrame =
  frame_webusbDevice :: usbDevice
  frame_activeConfigurationValue :: "nat option"
  frame_libusbJsConfigurations :: "LibusbJsConfigurationDescriptor list"
  frame_libusbJsConfiguration :: LibusbJsConfigurationDescriptor
  frame_remaining :: "USBConfiguration list"
  frame_result :: promise

text \<open>
  What is left to run of an asynchronous function that is suspended in an \<^verbatim>\<open>await\<close>:
  one constructor for each \<^verbatim>\<open>await\<close> of the source, with the local variables of the
  function and the promise that the function returned. \<open>Caller\<close> is the code outside
  the adaptor that waits for the result of a request.
\<close>

datatype continuation =
    Caller
  | ListDevices_resume promise
  | OpenDeviceHandle_resume deviceStateRef promise
  | OpenWebusbDevice_afterClose deviceStateRef promise
  | OpenWebusbDevice_afterOpen deviceStateRef promise
  | CloseDeviceHandle_resume deviceStateRef promise
  | HandleOperation_resume promise
  | Transfer_resume promise
  | FetchAndFill_afterOpen getConfigurationsFrame
  | ForOpenedDevice_afterHeader getConfigurationsFrame
  | ForOpenedDevice_afterDescriptors getConfigurationsFrame nat
  | FetchAndFill_afterExtraction getConfigurationsFrame
  | FetchAndFill_afterClose getConfigurationsFrame completion
  | GetConfigurations_afterFetch getConfigurationsFrame

record promiseState =
  settled :: "jsValue settlement option"
  reactions :: "continuation list"

text \<open>The function of the source in which a call to WebUSB is made.\<close>

datatype callSite =
    InListDevices
  | InOpenWebusbDevice deviceStateRef
  | InCloseDeviceHandle deviceStateRef
  | InHandleOperation deviceStateRef
  | InTransfer deviceStateRef
  | InFetchAndFill
  | InForOpenedDevice

text \<open>
  The whole state: the three fields of the adaptor object; the DeviceState objects and
  the promises; the queue of jobs that are ready to run, each a continuation with the
  settlement of the promise it waited for; whether code of the caller is running; the
  calls made to WebUSB so far, each with the promise it returned and the place it was
  made at; and the properties of the USBDevice objects.
\<close>

record system =
  idToDeviceMap :: "(nat \<times> deviceStateRef) list"
  nextFreeDeviceId :: nat
  nextFreeDeviceHandle :: nat
  deviceStates :: "deviceStateRef \<Rightarrow> DeviceState"
  nextDeviceState :: deviceStateRef
  promises :: "promise \<Rightarrow> promiseState"
  nextPromise :: nat
  microtasks :: "(continuation \<times> jsValue settlement) list"
  callerRunning :: bool
  hostCalls :: "(promise \<times> callSite \<times> hostCall) list"
  usb :: "usbDevice \<Rightarrow> USBDevice"

text \<open>The state that the constructor of the adaptor leaves.\<close>

definition constructed :: "(usbDevice \<Rightarrow> USBDevice) \<Rightarrow> system" where
  "constructed devices =
     \<lparr>idToDeviceMap = [], nextFreeDeviceId = 1, nextFreeDeviceHandle = 1,
      deviceStates = (\<lambda>_. \<lparr>webusbDevice = 0, handles = {}, openOperationPromise = None,
                             closeOperationPromise = None\<rparr>),
      nextDeviceState = 0,
      promises = (\<lambda>_. \<lparr>settled = None, reactions = []\<rparr>),
      nextPromise = 0, microtasks = [], callerRunning = False, hostCalls = [], usb = devices\<rparr>"

subsubsection \<open>Promises\<close>

definition newPromise :: "(nat \<Rightarrow> promise) \<Rightarrow> system \<Rightarrow> promise \<times> system" where
  "newPromise kind s =
     (kind (nextPromise s),
      s\<lparr>nextPromise := Suc (nextPromise s),
        promises := (promises s)(kind (nextPromise s) := \<lparr>settled = None, reactions = []\<rparr>)\<rparr>)"

definition enqueue :: "continuation \<Rightarrow> jsValue settlement \<Rightarrow> system \<Rightarrow> system" where
  "enqueue k outcome s = s\<lparr>microtasks := microtasks s @ [(k, outcome)]\<rparr>"

text \<open>
  \<^verbatim>\<open>await p\<close>: the rest of the function becomes a reaction of \<open>p\<close>; if \<open>p\<close> is settled
  already, the job is queued at once.
\<close>

definition await :: "promise \<Rightarrow> continuation \<Rightarrow> system \<Rightarrow> system" where
  "await p k s =
     (case settled (promises s p) of
        None \<Rightarrow>
          s\<lparr>promises := (promises s)(p := (promises s p)\<lparr>reactions := reactions (promises s p) @ [k]\<rparr>)\<rparr>
      | Some outcome \<Rightarrow> enqueue k outcome s)"

text \<open>
  Settling a promise queues its reactions, in the order they were added, behind the jobs
  already queued. A settled promise stays as it is.
\<close>

definition settle :: "promise \<Rightarrow> jsValue settlement \<Rightarrow> system \<Rightarrow> system" where
  "settle p outcome s =
     (case settled (promises s p) of
        None \<Rightarrow>
          s\<lparr>promises := (promises s)(p := \<lparr>settled = Some outcome, reactions = []\<rparr>),
            microtasks := microtasks s @ map (\<lambda>k. (k, outcome)) (reactions (promises s p))\<rparr>
      | Some _ \<Rightarrow> s)"

text \<open>A call of a WebUSB method returns a new pending promise; the call is recorded.\<close>

definition callHost :: "callSite \<Rightarrow> hostCall \<Rightarrow> system \<Rightarrow> promise \<times> system" where
  "callHost site c s =
     (case newPromise Host s of (p, s') \<Rightarrow> (p, s'\<lparr>hostCalls := hostCalls s' @ [(p, site, c)]\<rparr>))"

subsubsection \<open>The device map\<close>

text \<open>
  The fields \<^verbatim>\<open>idToDeviceMap_\<close>, \<^verbatim>\<open>nextFreeDeviceId_\<close> and
  \<^verbatim>\<open>nextFreeDeviceHandle_\<close> and the private methods \<^verbatim>\<open>getDeviceId_\<close>,
  \<^verbatim>\<open>getDeviceByIdOrThrow_\<close>, \<^verbatim>\<open>getDeviceByIdAndHandleOrThrow_\<close> and
  \<^verbatim>\<open>updateDeviceMap_\<close> are written without the underscore at the end, which a constant
  cannot have. The counters are natural numbers: they start at 1 and only grow by one,
  far below the point where a JavaScript number stops being exact.
\<close>

definition updateDeviceState :: "deviceStateRef \<Rightarrow> (DeviceState \<Rightarrow> DeviceState) \<Rightarrow> system \<Rightarrow> system" where
  "updateDeviceState d f s = s\<lparr>deviceStates := (deviceStates s)(d := f (deviceStates s d))\<rparr>"

definition newDeviceState :: "usbDevice \<Rightarrow> system \<Rightarrow> deviceStateRef \<times> system" where
  "newDeviceState webusbDevice' s =
     (nextDeviceState s,
      s\<lparr>nextDeviceState := Suc (nextDeviceState s),
        deviceStates := (deviceStates s)(nextDeviceState s :=
          \<lparr>webusbDevice = webusbDevice', handles = {}, openOperationPromise = None,
           closeOperationPromise = None\<rparr>)\<rparr>)"

text \<open>
  A JavaScript Map keeps its keys in the order of their first insertion: \<^verbatim>\<open>set\<close>
  replaces the value of a key that is present and adds a new key at the end.
\<close>

fun mapSet :: "nat \<Rightarrow> 'v \<Rightarrow> (nat \<times> 'v) list \<Rightarrow> (nat \<times> 'v) list" where
  "mapSet k v [] = [(k, v)]"
| "mapSet k v ((k', v') # m) = (if k' = k then (k, v) # m else (k', v') # mapSet k v m)"

definition mapGet :: "(nat \<times> 'v) list \<Rightarrow> nat \<Rightarrow> 'v option" where
  "mapGet m k = map_of m k"

definition getDeviceId :: "system \<Rightarrow> usbDevice \<Rightarrow> nat option" where
  "getDeviceId s webusbDevice' =
     map_option fst
       (find (\<lambda>(deviceId, d). webusbDevice (deviceStates s d) = webusbDevice') (idToDeviceMap s))"

definition getDeviceByIdOrThrow :: "system \<Rightarrow> nat \<Rightarrow> error + deviceStateRef" where
  "getDeviceByIdOrThrow s deviceId =
     (case mapGet (idToDeviceMap s) deviceId of
        None \<Rightarrow> Inl (NoDeviceWithId deviceId)
      | Some deviceState \<Rightarrow> Inr deviceState)"

definition getDeviceByIdAndHandleOrThrow :: "system \<Rightarrow> nat \<Rightarrow> nat \<Rightarrow> error + deviceStateRef" where
  "getDeviceByIdAndHandleOrThrow s deviceId deviceHandle =
     (case mapGet (idToDeviceMap s) deviceId of
        None \<Rightarrow> Inl (NoDeviceWithId deviceId)
      | Some deviceState \<Rightarrow>
          if deviceHandle \<notin> handles (deviceStates s deviceState) then Inl (NoDeviceHandle deviceHandle)
          else Inr deviceState)"

text \<open>
  The loop of \<^verbatim>\<open>updateDeviceMap_\<close> over \<^verbatim>\<open>webusbDevices\<close>, with the new map built so
  far. The lookups go to the map that the adaptor still holds. A key that
  \<^verbatim>\<open>getDeviceId_\<close> returns is a key of that map, so \<^verbatim>\<open>get\<close> finds its value; the
  other case of \<open>mapGet\<close> is never taken and leaves the new map as it is.
\<close>

fun updateDeviceMap_loop ::
  "usbDevice list \<Rightarrow> (nat \<times> deviceStateRef) list \<Rightarrow> system \<Rightarrow> (nat \<times> deviceStateRef) list \<times> system" where
  "updateDeviceMap_loop [] newIdToDeviceMap s = (newIdToDeviceMap, s)"
| "updateDeviceMap_loop (webusbDevice' # rest) newIdToDeviceMap s =
     (case getDeviceId s webusbDevice' of
        None \<Rightarrow>
          (case newDeviceState webusbDevice' (s\<lparr>nextFreeDeviceId := nextFreeDeviceId s + 1\<rparr>) of
             (d, s') \<Rightarrow>
               updateDeviceMap_loop rest (mapSet (nextFreeDeviceId s) d newIdToDeviceMap) s')
      | Some chosenDeviceId \<Rightarrow>
          (case mapGet (idToDeviceMap s) chosenDeviceId of
             Some d \<Rightarrow> updateDeviceMap_loop rest (mapSet chosenDeviceId d newIdToDeviceMap) s
           | None \<Rightarrow> updateDeviceMap_loop rest newIdToDeviceMap s))"

definition updateDeviceMap :: "usbDevice list \<Rightarrow> system \<Rightarrow> system" where
  "updateDeviceMap webusbDevices s =
     (case updateDeviceMap_loop webusbDevices [] s of
        (newIdToDeviceMap, s') \<Rightarrow> s'\<lparr>idToDeviceMap := newIdToDeviceMap\<rparr>)"

subsubsection \<open>openDeviceHandle and openWebusbDevice\<close>

text \<open>
  \<^verbatim>\<open>openWebusbDevice\<close> from line 505 on: the call of \<^verbatim>\<open>open()\<close> and the \<^verbatim>\<open>await\<close>
  of its promise. \<open>p\<close> is the promise that \<^verbatim>\<open>openWebusbDevice\<close> returned.
\<close>

definition openWebusbDevice_open :: "deviceStateRef \<Rightarrow> promise \<Rightarrow> system \<Rightarrow> system" where
  "openWebusbDevice_open deviceState p s =
     (case callHost (InOpenWebusbDevice deviceState)
             (UsbOpen (webusbDevice (deviceStates s deviceState))) s of
        (opened, s') \<Rightarrow> await opened (OpenWebusbDevice_afterOpen deviceState p) s')"

text \<open>
  The call of the asynchronous function \<^verbatim>\<open>openWebusbDevice\<close>: it runs up to its first
  \<^verbatim>\<open>await\<close> and returns its promise.
\<close>

definition openWebusbDevice :: "deviceStateRef \<Rightarrow> system \<Rightarrow> promise \<times> system" where
  "openWebusbDevice deviceState s =
     (case newPromise (Opening deviceState) s of
        (p, s') \<Rightarrow>
          (p, case closeOperationPromise (deviceStates s' deviceState) of
                Some closing \<Rightarrow> await closing (OpenWebusbDevice_afterClose deviceState p) s'
              | None \<Rightarrow> openWebusbDevice_open deviceState p s'))"

text \<open>Lines 162 to 165: the new handle. \<open>r\<close> is the promise that openDeviceHandle returned.\<close>

definition openDeviceHandle_newHandle :: "deviceStateRef \<Rightarrow> promise \<Rightarrow> system \<Rightarrow> system" where
  "openDeviceHandle_newHandle deviceState r s =
     (let newHandle = nextFreeDeviceHandle s in
      settle r (Resolves (Number newHandle))
        (updateDeviceState deviceState (\<lambda>d. d\<lparr>handles := insert newHandle (handles d)\<rparr>)
           (s\<lparr>nextFreeDeviceHandle := nextFreeDeviceHandle s + 1\<rparr>)))"

definition openDeviceHandle :: "nat \<Rightarrow> promise \<Rightarrow> system \<Rightarrow> system" where
  "openDeviceHandle deviceId r s =
     (case getDeviceByIdOrThrow s deviceId of
        Inl e \<Rightarrow> settle r (Rejects e) s
      | Inr deviceState \<Rightarrow>
          if handles (deviceStates s deviceState) = {} then
            (let s' =
               (if openOperationPromise (deviceStates s deviceState) = None then
                  (case openWebusbDevice deviceState s of
                     (p, s1) \<Rightarrow>
                       updateDeviceState deviceState (\<lambda>d. d\<lparr>openOperationPromise := Some p\<rparr>) s1)
                else s)
             in case openOperationPromise (deviceStates s' deviceState) of
                  Some p \<Rightarrow> await p (OpenDeviceHandle_resume deviceState r) s'
                | None \<Rightarrow> s')
          else openDeviceHandle_newHandle deviceState r s)"

text \<open>
  After \<^verbatim>\<open>await deviceState.openOperationPromise\<close>: the \<^verbatim>\<open>finally\<close> block clears the
  field; then the rejection is passed on, or the handle is made.
\<close>

definition openDeviceHandle_resume ::
  "deviceStateRef \<Rightarrow> promise \<Rightarrow> jsValue settlement \<Rightarrow> system \<Rightarrow> system" where
  "openDeviceHandle_resume deviceState r outcome s =
     (let s' = updateDeviceState deviceState (\<lambda>d. d\<lparr>openOperationPromise := None\<rparr>) s in
      case outcome of
        Rejects e \<Rightarrow> settle r (Rejects e) s'
      | Resolves _ \<Rightarrow> openDeviceHandle_newHandle deviceState r s')"

definition openWebusbDevice_afterClose ::
  "deviceStateRef \<Rightarrow> promise \<Rightarrow> jsValue settlement \<Rightarrow> system \<Rightarrow> system" where
  "openWebusbDevice_afterClose deviceState p outcome s =
     (case outcome of
        Rejects e \<Rightarrow> settle p (Rejects e) s
      | Resolves _ \<Rightarrow> openWebusbDevice_open deviceState p s)"

definition openWebusbDevice_afterOpen ::
  "deviceStateRef \<Rightarrow> promise \<Rightarrow> jsValue settlement \<Rightarrow> system \<Rightarrow> system" where
  "openWebusbDevice_afterOpen deviceState p outcome s =
     (case outcome of
        Rejects e \<Rightarrow> settle p (Rejects e) s
      | Resolves _ \<Rightarrow> settle p (Resolves Undefined) s)"

subsubsection \<open>closeDeviceHandle\<close>

definition closeDeviceHandle :: "nat \<Rightarrow> nat \<Rightarrow> promise \<Rightarrow> system \<Rightarrow> system" where
  "closeDeviceHandle deviceId deviceHandle r s =
     (case getDeviceByIdOrThrow s deviceId of
        Inl e \<Rightarrow> settle r (Rejects e) s
      | Inr deviceState \<Rightarrow>
          if deviceHandle \<notin> handles (deviceStates s deviceState)
          then settle r (Rejects (UnknownDeviceHandle deviceHandle)) s
          else
            (let s1 = updateDeviceState deviceState (\<lambda>d. d\<lparr>handles := handles d - {deviceHandle}\<rparr>) s in
             if handles (deviceStates s1 deviceState) \<noteq> {} then settle r (Resolves Undefined) s1
             else
               (case callHost (InCloseDeviceHandle deviceState)
                       (UsbClose (webusbDevice (deviceStates s1 deviceState))) s1 of
                  (closing, s2) \<Rightarrow>
                    await closing (CloseDeviceHandle_resume deviceState r)
                      (updateDeviceState deviceState (\<lambda>d. d\<lparr>closeOperationPromise := Some closing\<rparr>) s2))))"

text \<open>
  After \<^verbatim>\<open>await deviceState.closeOperationPromise\<close>: a rejection is thrown on and the
  field stays as it is; otherwise the field is cleared.
\<close>

definition closeDeviceHandle_resume ::
  "deviceStateRef \<Rightarrow> promise \<Rightarrow> jsValue settlement \<Rightarrow> system \<Rightarrow> system" where
  "closeDeviceHandle_resume deviceState r outcome s =
     (case outcome of
        Rejects e \<Rightarrow> settle r (Rejects e) s
      | Resolves _ \<Rightarrow>
          settle r (Resolves Undefined)
            (updateDeviceState deviceState (\<lambda>d. d\<lparr>closeOperationPromise := None\<rparr>) s))"

subsubsection \<open>claimInterface, releaseInterface and resetDevice\<close>

text \<open>
  Each checks the handle with \<^verbatim>\<open>getDeviceByIdAndHandleOrThrow_\<close>, makes one call to
  WebUSB and waits for it.
\<close>

definition handleOperation ::
  "nat \<Rightarrow> nat \<Rightarrow> (usbDevice \<Rightarrow> hostCall) \<Rightarrow> promise \<Rightarrow> system \<Rightarrow> system" where
  "handleOperation deviceId deviceHandle webusbMethod r s =
     (case getDeviceByIdAndHandleOrThrow s deviceId deviceHandle of
        Inl e \<Rightarrow> settle r (Rejects e) s
      | Inr deviceState \<Rightarrow>
          (case callHost (InHandleOperation deviceState)
                  (webusbMethod (webusbDevice (deviceStates s deviceState))) s of
             (p, s') \<Rightarrow> await p (HandleOperation_resume r) s'))"

definition handleOperation_resume :: "promise \<Rightarrow> jsValue settlement \<Rightarrow> system \<Rightarrow> system" where
  "handleOperation_resume r outcome s =
     (case outcome of
        Rejects e \<Rightarrow> settle r (Rejects e) s
      | Resolves _ \<Rightarrow> settle r (Resolves Undefined) s)"

subsubsection \<open>controlTransfer, bulkTransfer and interruptTransfer\<close>

text \<open>
  The parameters that the caller gives. The two enumerations are those of the LibusbJs
  data model; \<open>OtherRequestType\<close> and \<open>OtherRecipient\<close> stand for a value that is none of
  the named ones. \<^verbatim>\<open>dataToSend\<close> is an ArrayBuffer when it is given.
\<close>

datatype LibusbJsTransferRequestType = STANDARD | CLASS | VENDOR | OtherRequestType

datatype LibusbJsTransferRecipient = DEVICE | INTERFACE | ENDPOINT | OTHER | OtherRecipient

record LibusbJsControlTransferParameters =
  libusb_requestType :: LibusbJsTransferRequestType
  libusb_recipient :: LibusbJsTransferRecipient
  libusb_request :: nat
  libusb_value :: int
  libusb_index :: nat
  libusb_dataToSend :: "byte list option"
  libusb_lengthToReceive :: nat

record LibusbJsGenericTransferParameters =
  generic_endpointAddress :: nat
  generic_dataToSend :: "byte list option"
  generic_lengthToReceive :: nat

definition getWebusbRequestType :: "LibusbJsTransferRequestType \<Rightarrow> error + string" where
  "getWebusbRequestType libusbJsTransferRequestType =
     (case libusbJsTransferRequestType of
        STANDARD \<Rightarrow> Inr ''standard''
      | CLASS \<Rightarrow> Inr ''class''
      | VENDOR \<Rightarrow> Inr ''vendor''
      | OtherRequestType \<Rightarrow> Inl UnknownTransferRequestType)"

definition getWebusbRecipient :: "LibusbJsTransferRecipient \<Rightarrow> error + string" where
  "getWebusbRecipient libusbJsTransferRecipient =
     (case libusbJsTransferRecipient of
        DEVICE \<Rightarrow> Inr ''device''
      | INTERFACE \<Rightarrow> Inr ''interface''
      | ENDPOINT \<Rightarrow> Inr ''endpoint''
      | OTHER \<Rightarrow> Inr ''other''
      | OtherRecipient \<Rightarrow> Inl UnknownTransferRecipient)"

text \<open>
  \<^verbatim>\<open>getLibusbJsTransferResultOrThrow\<close>, on the status and the data of the result of
  WebUSB (a USBOutTransferResult has no data).
\<close>

definition getLibusbJsTransferResultOrThrow :: "string \<Rightarrow> byte list option \<Rightarrow> error + jsValue" where
  "getLibusbJsTransferResultOrThrow webusbStatus webusbData =
     (if webusbStatus \<noteq> ''ok'' then Inl (TransferFailed webusbStatus)
      else Inr (TransferResult webusbData))"

definition controlTransfer ::
  "nat \<Rightarrow> nat \<Rightarrow> LibusbJsControlTransferParameters \<Rightarrow> promise \<Rightarrow> system \<Rightarrow> system" where
  "controlTransfer deviceId deviceHandle parameters r s =
     (case getDeviceByIdAndHandleOrThrow s deviceId deviceHandle of
        Inl e \<Rightarrow> settle r (Rejects e) s
      | Inr deviceState \<Rightarrow>
          (case getWebusbRequestType (libusb_requestType parameters) of
             Inl e \<Rightarrow> settle r (Rejects e) s
           | Inr webusbRequestType \<Rightarrow>
               (case getWebusbRecipient (libusb_recipient parameters) of
                  Inl e \<Rightarrow> settle r (Rejects e) s
                | Inr webusbRecipient \<Rightarrow>
                    (let webusbControlTransferParameters =
                           \<lparr>requestType = webusbRequestType, recipient = webusbRecipient,
                            request = libusb_request parameters, value' = libusb_value parameters,
                            index' = libusb_index parameters\<rparr>;
                         w = webusbDevice (deviceStates s deviceState)
                     in case callHost (InTransfer deviceState)
                               (case libusb_dataToSend parameters of
                                  Some dataToSend \<Rightarrow>
                                    UsbControlTransferOut w webusbControlTransferParameters dataToSend
                                | None \<Rightarrow>
                                    UsbControlTransferIn w webusbControlTransferParameters
                                      (libusb_lengthToReceive parameters)) s of
                          (p, s') \<Rightarrow> await p (Transfer_resume r) s'))))"

text \<open>
  \<^verbatim>\<open>genericTransfer_\<close>, which \<^verbatim>\<open>bulkTransfer\<close> and \<^verbatim>\<open>interruptTransfer\<close> both call. The
  endpoint number is \<^verbatim>\<open>endpointAddress & 0xF\<close>.
\<close>

definition genericTransfer ::
  "nat \<Rightarrow> nat \<Rightarrow> LibusbJsGenericTransferParameters \<Rightarrow> promise \<Rightarrow> system \<Rightarrow> system" where
  "genericTransfer deviceId deviceHandle parameters r s =
     (case getDeviceByIdAndHandleOrThrow s deviceId deviceHandle of
        Inl e \<Rightarrow> settle r (Rejects e) s
      | Inr deviceState \<Rightarrow>
          (let endpointNumber = generic_endpointAddress parameters mod 16;
               w = webusbDevice (deviceStates s deviceState)
           in case callHost (InTransfer deviceState)
                     (case generic_dataToSend parameters of
                        Some dataToSend \<Rightarrow> UsbTransferOut w endpointNumber dataToSend
                      | None \<Rightarrow> UsbTransferIn w endpointNumber (generic_lengthToReceive parameters)) s of
                (p, s') \<Rightarrow> await p (Transfer_resume r) s'))"

definition transfer_resume :: "promise \<Rightarrow> jsValue settlement \<Rightarrow> system \<Rightarrow> system" where
  "transfer_resume r outcome s =
     (case outcome of
        Rejects e \<Rightarrow> settle r (Rejects e) s
      | Resolves (InTransferResult transferResult) \<Rightarrow>
          (case getLibusbJsTransferResultOrThrow (status transferResult) (data transferResult) of
             Inl e \<Rightarrow> settle r (Rejects e) s
           | Inr libusbJsTransferResult \<Rightarrow> settle r (Resolves libusbJsTransferResult) s)
      | Resolves (OutTransferResult transferResult) \<Rightarrow>
          (case getLibusbJsTransferResultOrThrow (out_status transferResult) None of
             Inl e \<Rightarrow> settle r (Rejects e) s
           | Inr libusbJsTransferResult \<Rightarrow> settle r (Resolves libusbJsTransferResult) s)
      | Resolves _ \<Rightarrow> settle r (Rejects TypeError) s)"

subsubsection \<open>listDevices\<close>

definition listDevices :: "promise \<Rightarrow> system \<Rightarrow> system" where
  "listDevices r s =
     (case callHost InListDevices UsbGetDevices s of (p, s') \<Rightarrow> await p (ListDevices_resume r) s')"

text \<open>
  Of the LibusbJsDevice that \<^verbatim>\<open>convertWebusbDeviceToLibusb_\<close> builds, the model keeps
  the \<^verbatim>\<open>deviceId\<close>; the other properties are copied from the USBDevice object.
\<close>

definition listDevices_resume :: "promise \<Rightarrow> jsValue settlement \<Rightarrow> system \<Rightarrow> system" where
  "listDevices_resume r outcome s =
     (case outcome of
        Rejects e \<Rightarrow> settle r (Rejects e) s
      | Resolves (Devices webusbDevices) \<Rightarrow>
          (let s' = updateDeviceMap webusbDevices s in
           settle r (Resolves (DeviceIds (map (getDeviceId s') webusbDevices))) s')
      | Resolves _ \<Rightarrow> settle r (Rejects TypeError) s)"

subsubsection \<open>getConfigurations, cut at each await\<close>

text \<open>
  While \<^verbatim>\<open>getConfigurations\<close> waits for \<^verbatim>\<open>fetchAndFillConfigurationExtraData\<close>, and
  that one for \<^verbatim>\<open>fetchAndFillConfigurationExtraDataForOpenedDevice\<close>, the promise of
  the called function has the calling function as its only reaction, and it is still
  pending when the caller starts to wait (the called function stops at an \<^verbatim>\<open>await\<close> of
  a new promise of WebUSB first). So when the called function ends, the job of the
  caller is queued with the way it ended.
\<close>

definition asSettlement :: "completion \<Rightarrow> jsValue settlement" where
  "asSettlement done = (case done of Returned \<Rightarrow> Resolves Undefined | Thrown e \<Rightarrow> Rejects e)"

text \<open>The head of the loop \<^verbatim>\<open>for (const webusbConfiguration of ...)\<close> and the return.\<close>

definition getConfigurations_iterate ::
  "usbDevice \<Rightarrow> nat option \<Rightarrow> LibusbJsConfigurationDescriptor list \<Rightarrow> USBConfiguration list
   \<Rightarrow> promise \<Rightarrow> system \<Rightarrow> system" where
  "getConfigurations_iterate webusbDevice' activeConfigurationValue libusbJsConfigurations remaining r s =
     (case remaining of
        [] \<Rightarrow> settle r (Resolves (Configurations libusbJsConfigurations)) s
      | webusbConfiguration # rest \<Rightarrow>
          (case callHost InFetchAndFill (UsbOpen webusbDevice') s of
             (opened, s') \<Rightarrow>
               await opened
                 (FetchAndFill_afterOpen
                    \<lparr>frame_webusbDevice = webusbDevice',
                     frame_activeConfigurationValue = activeConfigurationValue,
                     frame_libusbJsConfigurations = libusbJsConfigurations,
                     frame_libusbJsConfiguration =
                       getLibusbJsConfigurationDescriptor webusbConfiguration activeConfigurationValue,
                     frame_remaining = rest,
                     frame_result = r\<rparr>) s'))"

definition getConfigurations_call :: "nat \<Rightarrow> promise \<Rightarrow> system \<Rightarrow> system" where
  "getConfigurations_call deviceId r s =
     (case getDeviceByIdOrThrow s deviceId of
        Inl e \<Rightarrow> settle r (Rejects e) s
      | Inr deviceState \<Rightarrow>
          (let webusbDevice' = webusbDevice (deviceStates s deviceState) in
           getConfigurations_iterate webusbDevice'
             (map_option usb_configurationValue (usb_configuration (usb s webusbDevice')))
             [] (usb_configurations (usb s webusbDevice')) r s))"

definition fetchAndFill_afterOpen :: "getConfigurationsFrame \<Rightarrow> jsValue settlement \<Rightarrow> system \<Rightarrow> system" where
  "fetchAndFill_afterOpen f outcome s =
     (case outcome of
        Rejects e \<Rightarrow> enqueue (GetConfigurations_afterFetch f) (Rejects e) s
      | Resolves _ \<Rightarrow>
          (case callHost InForOpenedDevice
                  (UsbControlTransferIn (frame_webusbDevice f)
                     (getDescriptorParameters (frame_libusbJsConfiguration f))
                     CONFIGURATION_DESCRIPTOR_LENGTH) s of
             (p, s') \<Rightarrow> await p (ForOpenedDevice_afterHeader f) s'))"

definition forOpenedDevice_afterHeader :: "getConfigurationsFrame \<Rightarrow> jsValue settlement \<Rightarrow> system \<Rightarrow> system" where
  "forOpenedDevice_afterHeader f outcome s =
     (case outcome of
        Rejects e \<Rightarrow> enqueue (FetchAndFill_afterExtraction f) (Rejects e) s
      | Resolves (InTransferResult transferResult) \<Rightarrow>
          (case readTotalLength transferResult of
             Inl e \<Rightarrow> enqueue (FetchAndFill_afterExtraction f) (Rejects e) s
           | Inr None \<Rightarrow> enqueue (FetchAndFill_afterExtraction f) (Resolves Undefined) s
           | Inr (Some totalLength) \<Rightarrow>
               (case callHost InForOpenedDevice
                       (UsbControlTransferIn (frame_webusbDevice f)
                          (getDescriptorParameters (frame_libusbJsConfiguration f))
                          totalLength) s of
                  (p, s') \<Rightarrow> await p (ForOpenedDevice_afterDescriptors f totalLength) s'))
      | Resolves _ \<Rightarrow> enqueue (FetchAndFill_afterExtraction f) (Rejects TypeError) s)"

definition forOpenedDevice_afterDescriptors ::
  "getConfigurationsFrame \<Rightarrow> nat \<Rightarrow> jsValue settlement \<Rightarrow> system \<Rightarrow> system" where
  "forOpenedDevice_afterDescriptors f totalLength outcome s =
     (case outcome of
        Rejects e \<Rightarrow> enqueue (FetchAndFill_afterExtraction f) (Rejects e) s
      | Resolves (InTransferResult transferResult) \<Rightarrow>
          (case fillFromDescriptors totalLength transferResult (frame_libusbJsConfiguration f) of
             (c, done) \<Rightarrow>
               enqueue (FetchAndFill_afterExtraction (f\<lparr>frame_libusbJsConfiguration := c\<rparr>))
                 (asSettlement done) s)
      | Resolves _ \<Rightarrow> enqueue (FetchAndFill_afterExtraction f) (Rejects TypeError) s)"

text \<open>The \<^verbatim>\<open>finally\<close> block: the close, whatever the \<^verbatim>\<open>try\<close> block did.\<close>

definition fetchAndFill_afterExtraction :: "getConfigurationsFrame \<Rightarrow> jsValue settlement \<Rightarrow> system \<Rightarrow> system" where
  "fetchAndFill_afterExtraction f outcome s =
     (case callHost InFetchAndFill (UsbClose (frame_webusbDevice f)) s of
        (p, s') \<Rightarrow>
          await p (FetchAndFill_afterClose f
                     (case outcome of Resolves _ \<Rightarrow> Returned | Rejects e \<Rightarrow> Thrown e)) s')"

definition fetchAndFill_afterClose ::
  "getConfigurationsFrame \<Rightarrow> completion \<Rightarrow> jsValue settlement \<Rightarrow> system \<Rightarrow> system" where
  "fetchAndFill_afterClose f done outcome s =
     enqueue (GetConfigurations_afterFetch f)
       (case outcome of Rejects e \<Rightarrow> Rejects e | Resolves _ \<Rightarrow> asSettlement done) s"

text \<open>
  Back in \<^verbatim>\<open>getConfigurations\<close>: \<^verbatim>\<open>catch\<close> drops what was thrown, the configuration is
  pushed, and the loop goes on.
\<close>

definition getConfigurations_afterFetch :: "getConfigurationsFrame \<Rightarrow> jsValue settlement \<Rightarrow> system \<Rightarrow> system" where
  "getConfigurations_afterFetch f outcome s =
     getConfigurations_iterate (frame_webusbDevice f) (frame_activeConfigurationValue f)
       (frame_libusbJsConfigurations f @ [frame_libusbJsConfiguration f])
       (frame_remaining f) (frame_result f) s"

subsubsection \<open>Running a job\<close>

fun resume :: "continuation \<Rightarrow> jsValue settlement \<Rightarrow> system \<Rightarrow> system" where
  "resume Caller outcome s = s\<lparr>callerRunning := True\<rparr>"
| "resume (ListDevices_resume r) outcome s = listDevices_resume r outcome s"
| "resume (OpenDeviceHandle_resume deviceState r) outcome s =
     openDeviceHandle_resume deviceState r outcome s"
| "resume (OpenWebusbDevice_afterClose deviceState p) outcome s =
     openWebusbDevice_afterClose deviceState p outcome s"
| "resume (OpenWebusbDevice_afterOpen deviceState p) outcome s =
     openWebusbDevice_afterOpen deviceState p outcome s"
| "resume (CloseDeviceHandle_resume deviceState r) outcome s =
     closeDeviceHandle_resume deviceState r outcome s"
| "resume (HandleOperation_resume r) outcome s = handleOperation_resume r outcome s"
| "resume (Transfer_resume r) outcome s = transfer_resume r outcome s"
| "resume (FetchAndFill_afterOpen f) outcome s = fetchAndFill_afterOpen f outcome s"
| "resume (ForOpenedDevice_afterHeader f) outcome s = forOpenedDevice_afterHeader f outcome s"
| "resume (ForOpenedDevice_afterDescriptors f totalLength) outcome s =
     forOpenedDevice_afterDescriptors f totalLength outcome s"
| "resume (FetchAndFill_afterExtraction f) outcome s = fetchAndFill_afterExtraction f outcome s"
| "resume (FetchAndFill_afterClose f done) outcome s = fetchAndFill_afterClose f done outcome s"
| "resume (GetConfigurations_afterFetch f) outcome s = getConfigurations_afterFetch f outcome s"

subsubsection \<open>Requests and the event loop\<close>

datatype request =
    ListDevices
  | GetConfigurations nat
  | OpenDeviceHandle nat
  | CloseDeviceHandle nat nat
  | ClaimInterface nat nat nat
  | ReleaseInterface nat nat nat
  | ResetDevice nat nat
  | ControlTransfer nat nat LibusbJsControlTransferParameters
  | BulkTransfer nat nat LibusbJsGenericTransferParameters
  | InterruptTransfer nat nat LibusbJsGenericTransferParameters

text \<open>The method that a request calls, run up to its first \<^verbatim>\<open>await\<close> or to its end.\<close>

fun requestMethod :: "request \<Rightarrow> promise \<Rightarrow> system \<Rightarrow> system" where
  "requestMethod ListDevices r s = listDevices r s"
| "requestMethod (GetConfigurations deviceId) r s = getConfigurations_call deviceId r s"
| "requestMethod (OpenDeviceHandle deviceId) r s = openDeviceHandle deviceId r s"
| "requestMethod (CloseDeviceHandle deviceId deviceHandle) r s = closeDeviceHandle deviceId deviceHandle r s"
| "requestMethod (ClaimInterface deviceId deviceHandle interfaceNumber') r s =
     handleOperation deviceId deviceHandle (\<lambda>w. UsbClaimInterface w interfaceNumber') r s"
| "requestMethod (ReleaseInterface deviceId deviceHandle interfaceNumber') r s =
     handleOperation deviceId deviceHandle (\<lambda>w. UsbReleaseInterface w interfaceNumber') r s"
| "requestMethod (ResetDevice deviceId deviceHandle) r s =
     handleOperation deviceId deviceHandle UsbReset r s"
| "requestMethod (ControlTransfer deviceId deviceHandle parameters) r s =
     controlTransfer deviceId deviceHandle parameters r s"
| "requestMethod (BulkTransfer deviceId deviceHandle parameters) r s =
     genericTransfer deviceId deviceHandle parameters r s"
| "requestMethod (InterruptTransfer deviceId deviceHandle parameters) r s =
     genericTransfer deviceId deviceHandle parameters r s"

text \<open>
  A request is a call of a method of the adaptor by code of the caller. The method
  returns a promise, on which the caller then waits.
\<close>

definition call :: "request \<Rightarrow> system \<Rightarrow> promise \<times> system" where
  "call req s = (case newPromise Result s of (r, s') \<Rightarrow> (r, await r Caller (requestMethod req r s')))"

text \<open>
  JavaScript runs one job at a time, to its end. What can happen next:
  \<^item> \<open>CallerTask\<close>: with no job queued, a task of the caller starts;
  \<^item> \<open>Request\<close>: the running code of the caller calls a method of the adaptor;
  \<^item> \<open>CallerSpawns\<close>: the running code of the caller queues a job of its own;
  \<^item> \<open>CallerReturns\<close>: the running code of the caller ends;
  \<^item> \<open>RunMicrotask\<close>: with no code running, the first queued job runs;
  \<^item> \<open>HostSettles\<close>: with no code running and no job queued, WebUSB settles the
    pending promise of one of the calls made to it, with any value or reason.
  An event that cannot happen in a state yields \<open>None\<close>.
\<close>

datatype event =
    CallerTask
  | Request request
  | CallerSpawns
  | CallerReturns
  | RunMicrotask
  | HostSettles promise "jsValue settlement"

text \<open>The calls to WebUSB whose promise is still pending.\<close>

definition inFlight :: "system \<Rightarrow> (promise \<times> callSite \<times> hostCall) list" where
  "inFlight s = filter (\<lambda>(p, site, c). settled (promises s p) = None) (hostCalls s)"

fun step :: "event \<Rightarrow> system \<Rightarrow> system option" where
  "step CallerTask s =
     (if \<not> callerRunning s \<and> microtasks s = [] then Some (s\<lparr>callerRunning := True\<rparr>) else None)"
| "step (Request req) s = (if callerRunning s then Some (snd (call req s)) else None)"
| "step CallerSpawns s =
     (if callerRunning s then Some (enqueue Caller (Resolves Undefined) s) else None)"
| "step CallerReturns s =
     (if callerRunning s then Some (s\<lparr>callerRunning := False\<rparr>) else None)"
| "step RunMicrotask s =
     (if callerRunning s then None
      else case microtasks s of
             [] \<Rightarrow> None
           | (k, outcome) # rest \<Rightarrow> Some (resume k outcome (s\<lparr>microtasks := rest\<rparr>)))"
| "step (HostSettles p outcome) s =
     (if \<not> callerRunning s \<and> microtasks s = [] \<and> p \<in> fst ` set (inFlight s)
      then Some (settle p outcome s) else None)"

fun run :: "event list \<Rightarrow> system \<Rightarrow> system option" where
  "run [] s = Some s"
| "run (e # es) s = (case step e s of None \<Rightarrow> None | Some s' \<Rightarrow> run es s')"

text \<open>The states that the adaptor can be in, whatever the caller and WebUSB do.\<close>

definition reachable :: "system \<Rightarrow> bool" where
  "reachable s \<longleftrightarrow> (\<exists>devices es. run es (constructed devices) = Some s)"

subsection \<open>getConfigurations, followed from one await to the next\<close>

text \<open>
  The same function as one piece, for what it does to the descriptors it returns: each
  \<^verbatim>\<open>await\<close> is answered by the host before the function goes on.
\<close>

fun getConfigurations_loop ::
  "'h host \<Rightarrow> usbDevice \<Rightarrow> nat option \<Rightarrow> USBConfiguration list
   \<Rightarrow> LibusbJsConfigurationDescriptor list \<Rightarrow> 'h \<Rightarrow> LibusbJsConfigurationDescriptor list \<times> 'h" where
  "getConfigurations_loop host webusbDevice' activeConfigurationValue [] libusbJsConfigurations h =
     (libusbJsConfigurations, h)"
| "getConfigurations_loop host webusbDevice' activeConfigurationValue (webusbConfiguration # rest)
     libusbJsConfigurations h =
     (case fetchAndFillConfigurationExtraData host webusbDevice'
             (getLibusbJsConfigurationDescriptor webusbConfiguration activeConfigurationValue) h of
        ((c, done), h') \<Rightarrow>
          getConfigurations_loop host webusbDevice' activeConfigurationValue rest
            (libusbJsConfigurations @ [c]) h')"

definition getConfigurations ::
  "'h host \<Rightarrow> system \<Rightarrow> nat \<Rightarrow> 'h \<Rightarrow> (error + LibusbJsConfigurationDescriptor list) \<times> 'h" where
  "getConfigurations host s deviceId h =
     (case getDeviceByIdOrThrow s deviceId of
        Inl e \<Rightarrow> (Inl e, h)
      | Inr deviceState \<Rightarrow>
          (let webusbDevice' = webusbDevice (deviceStates s deviceState) in
           case getConfigurations_loop host webusbDevice'
                  (map_option usb_configurationValue (usb_configuration (usb s webusbDevice')))
                  (usb_configurations (usb s webusbDevice')) [] h of
             (libusbJsConfigurations, h') \<Rightarrow> (Inr libusbJsConfigurations, h')))"

subsection \<open>The walk as the specification words it\<close>

text \<open>
  The blob is a sequence of records; the first byte of a record is its length, header
  included, the second its type. A length below 2, or one that runs past the end of
  the blob, ends the sequence.
\<close>

function descriptorRecords :: "byte list \<Rightarrow> byte list list" where
  "descriptorRecords blob =
     (case blob of
        [] \<Rightarrow> []
      | b # _ \<Rightarrow>
          if unat b < 2 \<or> length blob < unat b then []
          else take (unat b) blob # descriptorRecords (drop (unat b) blob))"
  by pat_completeness auto
termination
  by (relation "measure length") auto

declare descriptorRecords.simps [simp del]

text \<open>
  The records that are extra data, in the order of the blob, each with the node it
  belongs to: the current endpoint if one is set, else the current interface if one is
  set, else the configuration. A configuration record changes nothing; an interface
  record of at least 9 bytes sets the current interface to the node with that interface
  number and resets the current endpoint; an endpoint record of at least 7 bytes sets the
  current endpoint to the node of the current interface with that address; a shorter
  record of these types is skipped.
\<close>

fun extraDataTargets ::
  "LibusbJsConfigurationDescriptor \<Rightarrow> nat option \<Rightarrow> (nat \<times> nat) option \<Rightarrow> byte list list
   \<Rightarrow> (targetObject \<times> byte list) list" where
  "extraDataTargets c itf ep [] = []"
| "extraDataTargets c itf ep (r # rs) =
     (if unat (r ! 1) = 0x02 then extraDataTargets c itf ep rs
      else if unat (r ! 1) = 0x04 then
        (if length r < 9 then extraDataTargets c itf ep rs
         else extraDataTargets c
                (findIndex (\<lambda>i. interfaceNumber i = unat (r ! 2)) (interfaces c)) None rs)
      else if unat (r ! 1) = 0x05 then
        (if length r < 7 then extraDataTargets c itf ep rs
         else extraDataTargets c itf
                (case itf of
                   None \<Rightarrow> None
                 | Some i \<Rightarrow>
                     if i < length (interfaces c)
                     then map_option (Pair i)
                            (findIndex (\<lambda>e. endpointAddress e = unat (r ! 2))
                               (endpoints (interfaces c ! i)))
                     else None) rs)
      else (case ep of
              Some (i, j) \<Rightarrow> TargetEndpoint i j
            | None \<Rightarrow> (case itf of Some i \<Rightarrow> TargetInterface i | None \<Rightarrow> TargetConfiguration), r)
           # extraDataTargets c itf ep rs)"

text \<open>Appending each of these records to its node, one after the other.\<close>

definition attachAll ::
  "(targetObject \<times> byte list) list \<Rightarrow> LibusbJsConfigurationDescriptor
   \<Rightarrow> LibusbJsConfigurationDescriptor" where
  "attachAll ts c = foldl (\<lambda>c' (t, bs). appendToTarget bs t c') c ts"

text \<open>The bytes of \<^verbatim>\<open>extraData\<close> that a node holds; none for a node that is not in the tree.\<close>

fun extraDataAt :: "targetObject \<Rightarrow> LibusbJsConfigurationDescriptor \<Rightarrow> byte list" where
  "extraDataAt TargetConfiguration c = (case configurationExtraData c of None \<Rightarrow> [] | Some bs \<Rightarrow> bs)"
| "extraDataAt (TargetInterface i) c =
     (if i < length (interfaces c)
      then (case interfaceExtraData (interfaces c ! i) of None \<Rightarrow> [] | Some bs \<Rightarrow> bs)
      else [])"
| "extraDataAt (TargetEndpoint i j) c =
     (if i < length (interfaces c) \<and> j < length (endpoints (interfaces c ! i))
      then (case endpointExtraData (endpoints (interfaces c ! i) ! j) of None \<Rightarrow> [] | Some bs \<Rightarrow> bs)
      else [])"

text \<open>The numbers and addresses by which the walk finds the nodes.\<close>

definition skeleton :: "LibusbJsConfigurationDescriptor \<Rightarrow> (nat \<times> nat list) list" where
  "skeleton c = map (\<lambda>i. (interfaceNumber i, map endpointAddress (endpoints i))) (interfaces c)"

fun inTree :: "LibusbJsConfigurationDescriptor \<Rightarrow> targetObject \<Rightarrow> bool" where
  "inTree c TargetConfiguration = True"
| "inTree c (TargetInterface i) = (i < length (interfaces c))"
| "inTree c (TargetEndpoint i j) =
     (i < length (interfaces c) \<and> j < length (endpoints (interfaces c ! i)))"

subsection \<open>Example inputs\<close>

text \<open>
  The blob of the specification: a configuration header, interface 0, endpoint 0x81 and a
  record of type 0xFF, 29 bytes in all; and the tree that WebUSB describes for it.
\<close>

definition syntheticBlob :: "byte list" where
  "syntheticBlob =
     [9, 0x02, 29, 0, 1, 1, 0, 0x80, 50,
      9, 0x04, 0, 0, 1, 0x0B, 0, 0, 0,
      7, 0x05, 0x81, 2, 64, 0, 0,
      4, 0xFF, 0xAA, 0xBB]"

definition syntheticEndpoint :: LibusbJsEndpointDescriptor where
  "syntheticEndpoint =
     \<lparr>endpointAddress = 0x81, direction = IN, endpointType = BULK, maxPacketSize = 64,
      endpointExtraData = None\<rparr>"

definition syntheticInterface :: LibusbJsInterfaceDescriptor where
  "syntheticInterface =
     \<lparr>interfaceNumber = 0, interfaceClass = 0x0B, interfaceSubclass = 0, interfaceProtocol = 0,
      endpoints = [syntheticEndpoint], interfaceExtraData = None\<rparr>"

definition syntheticConfiguration :: LibusbJsConfigurationDescriptor where
  "syntheticConfiguration =
     \<lparr>active = True, configurationValue = 1, interfaces = [syntheticInterface],
      configurationExtraData = None\<rparr>"

text \<open>
  A blob whose third record is malformed: a configuration header, a record of type 0xFF
  and a record of length 1, 14 bytes in all. And a blob that starts with a record of
  length 1.
\<close>

definition malformedLaterBlob :: "byte list" where
  "malformedLaterBlob = [9, 0x02, 14, 0, 0, 1, 0, 0x80, 50,  4, 0xFF, 0xAA, 0xBB,  1]"

definition malformedFirstBlob :: "byte list" where
  "malformedFirstBlob = [1, 0x02, 9, 0, 0, 1, 0, 0x80, 50]"

definition bareConfiguration :: LibusbJsConfigurationDescriptor where
  "bareConfiguration =
     \<lparr>active = True, configurationValue = 1, interfaces = [], configurationExtraData = None\<rparr>"

text \<open>
  A device that answers every GET_DESCRIPTOR transfer with the first bytes of its blob,
  as many as were asked for, and one that stalls every transfer.
\<close>

definition answeringDevice :: "byte list \<Rightarrow> unit host" where
  "answeringDevice blob c h =
     (case c of
        UsbControlTransferIn w parameters lengthToReceive \<Rightarrow>
          (Resolves (InTransferResult \<lparr>status = ''ok'', data = Some (take lengthToReceive blob)\<rparr>), h)
      | _ \<Rightarrow> (Resolves Undefined, h))"

definition stallingDevice :: "unit host" where
  "stallingDevice c h =
     (case c of
        UsbControlTransferIn w parameters lengthToReceive \<Rightarrow>
          (Resolves (InTransferResult \<lparr>status = ''stall'', data = None\<rparr>), h)
      | _ \<Rightarrow> (Resolves Undefined, h))"

text \<open>A device that refuses to be opened and rejects every transfer.\<close>

definition refusingDevice :: "unit host" where
  "refusingDevice c h =
     (case c of UsbClose w \<Rightarrow> (Resolves Undefined, h) | _ \<Rightarrow> (Rejects (HostError 1), h))"

text \<open>
  USBDevice objects with one configuration and no interfaces, and the adaptor after an
  enumeration that found the device 7.
\<close>

definition exampleDevices :: "usbDevice \<Rightarrow> USBDevice" where
  "exampleDevices =
     (\<lambda>w. \<lparr>usb_configuration = None,
            usb_configurations = [\<lparr>usb_configurationValue = 1, usb_interfaces = []\<rparr>]\<rparr>)"

definition enumerated :: system where
  "enumerated = updateDeviceMap [7] (constructed exampleDevices)"

subsection \<open>Predicates used in the proofs\<close>

text \<open>The pointers of the walk point at nodes of the tree.\<close>

definition pointersInTree ::
  "LibusbJsConfigurationDescriptor \<Rightarrow> nat option \<Rightarrow> (nat \<times> nat) option \<Rightarrow> bool" where
  "pointersInTree c itf ep \<longleftrightarrow>
     (\<forall>i. itf = Some i \<longrightarrow> i < length (interfaces c)) \<and>
     (\<forall>i j. ep = Some (i, j) \<longrightarrow> i < length (interfaces c) \<and> j < length (endpoints (interfaces c ! i)))"

subsection \<open>Predicates and runs used for the adaptor\<close>

text \<open>
  The loop of the enumeration touches the two counters it allocates from and the
  DeviceState objects it creates, and nothing else.
\<close>

definition allocatesOnly :: "system \<Rightarrow> system \<Rightarrow> bool" where
  "allocatesOnly s s' \<longleftrightarrow>
     idToDeviceMap s' = idToDeviceMap s \<and> nextFreeDeviceHandle s' = nextFreeDeviceHandle s \<and>
     promises s' = promises s \<and> nextPromise s' = nextPromise s \<and> microtasks s' = microtasks s \<and>
     callerRunning s' = callerRunning s \<and> hostCalls s' = hostCalls s \<and> usb s' = usb s \<and>
     nextFreeDeviceId s \<le> nextFreeDeviceId s' \<and> nextDeviceState s \<le> nextDeviceState s' \<and>
     (\<forall>d. deviceStates s' d = deviceStates s d \<or>
          nextDeviceState s \<le> d \<and> d < nextDeviceState s' \<and>
          handles (deviceStates s' d) = {} \<and> openOperationPromise (deviceStates s' d) = None \<and>
          closeOperationPromise (deviceStates s' d) = None)"

text \<open>How one job or one request changes the handle sets and the counter of handles.\<close>

definition handlesStep :: "system \<Rightarrow> system \<Rightarrow> bool" where
  "handlesStep s s' \<longleftrightarrow>
     nextFreeDeviceHandle s \<le> nextFreeDeviceHandle s' \<and>
     (\<forall>d h. h \<in> handles (deviceStates s' d) \<longrightarrow>
        h \<in> handles (deviceStates s d) \<or> h = nextFreeDeviceHandle s \<and> h < nextFreeDeviceHandle s')"

definition handlesBelowCounter :: "system \<Rightarrow> bool" where
  "handlesBelowCounter s \<longleftrightarrow> (\<forall>d h. h \<in> handles (deviceStates s d) \<longrightarrow> h < nextFreeDeviceHandle s)"

text \<open>A handle that is below the counter and in no set of the device is never in it again.\<close>

definition retired :: "nat \<Rightarrow> deviceStateRef \<Rightarrow> system \<Rightarrow> bool" where
  "retired h d s \<longleftrightarrow> h < nextFreeDeviceHandle s \<and> h \<notin> handles (deviceStates s d)"

definition enumeration :: "event list" where
  "enumeration = [CallerTask, Request ListDevices, CallerReturns,
     HostSettles (Host 1) (Resolves (Devices [7])), RunMicrotask, RunMicrotask]"

definition firstOpen :: "event list" where
  "firstOpen = [Request (OpenDeviceHandle 1), CallerReturns,
     HostSettles (Host 4) (Resolves Undefined), RunMicrotask, RunMicrotask, RunMicrotask]"

definition opened :: system where
  "opened = the (run (enumeration @ firstOpen) (constructed exampleDevices))"

definition openResults :: "nat \<Rightarrow> nat \<Rightarrow> promise list" where
  "openResults n N = Result n # map (\<lambda>j. Result (n + 2 + j)) [1..<N]"




definition registryInvariant :: "system \<Rightarrow> bool" where
  "registryInvariant s \<longleftrightarrow>
     distinct (map fst (idToDeviceMap s)) \<and>
     (\<forall>(i, d) \<in> set (idToDeviceMap s). i < nextFreeDeviceId s \<and> d < nextDeviceState s)"

definition deviceOf :: "system \<Rightarrow> deviceStateRef \<Rightarrow> usbDevice" where
  "deviceOf s d = webusbDevice (deviceStates s d)"

text \<open>
  The new map while the loop runs over the devices: \<open>seen\<close> are the devices visited so
  far, \<open>s\<close> is the state before the loop.
\<close>

definition building ::
  "system \<Rightarrow> usbDevice list \<Rightarrow> (nat \<times> deviceStateRef) list \<Rightarrow> system \<Rightarrow> bool" where
  "building s seen N t \<longleftrightarrow>
     allocatesOnly s t \<and>
     distinct (map fst N) \<and>
     (\<forall>(i, d) \<in> set N. i < nextFreeDeviceId t \<and> d < nextDeviceState t \<and> deviceOf t d \<in> set seen) \<and>
     (\<forall>(i, d) \<in> set N.
        (i, d) \<in> set (idToDeviceMap s) \<and> getDeviceId s (deviceOf s d) = Some i \<or>
        nextFreeDeviceId s \<le> i \<and> nextDeviceState s \<le> d \<and> getDeviceId s (deviceOf t d) = None) \<and>
     (\<forall>w \<in> set seen. \<exists>(i, d) \<in> set N. deviceOf t d = w)"

text \<open>The next job is the enumeration of \<open>ws\<close>.\<close>

definition enumerates :: "system \<Rightarrow> usbDevice list \<Rightarrow> bool" where
  "enumerates s ws \<longleftrightarrow>
     \<not> callerRunning s \<and>
     (\<exists>r rest. microtasks s = (ListDevices_resume r, Resolves (Devices ws)) # rest)"

definition registrySame :: "system \<Rightarrow> system \<Rightarrow> bool" where
  "registrySame s s' \<longleftrightarrow>
     idToDeviceMap s' = idToDeviceMap s \<and> nextFreeDeviceId s' = nextFreeDeviceId s \<and>
     nextDeviceState s' = nextDeviceState s \<and> (\<forall>d. deviceOf s' d = deviceOf s d)"

text \<open>An identifier that was given out and is no longer a key of the map.\<close>

definition dropped :: "nat \<Rightarrow> system \<Rightarrow> bool" where
  "dropped i s \<longleftrightarrow> registryInvariant s \<and> i < nextFreeDeviceId s \<and> i \<notin> fst ` set (idToDeviceMap s)"



text \<open>
  The identifier and the handle that a request gives to a method that takes a handle, and
  the error with which that method refuses a handle that is not in the set of the device:
  \<^verbatim>\<open>closeDeviceHandle\<close> makes the check itself, the other methods call
  \<^verbatim>\<open>getDeviceByIdAndHandleOrThrow_\<close>.
\<close>

fun handleArgument :: "request \<Rightarrow> (nat \<times> nat) option" where
  "handleArgument (CloseDeviceHandle deviceId deviceHandle) = Some (deviceId, deviceHandle)"
| "handleArgument (ClaimInterface deviceId deviceHandle _) = Some (deviceId, deviceHandle)"
| "handleArgument (ReleaseInterface deviceId deviceHandle _) = Some (deviceId, deviceHandle)"
| "handleArgument (ResetDevice deviceId deviceHandle) = Some (deviceId, deviceHandle)"
| "handleArgument (ControlTransfer deviceId deviceHandle _) = Some (deviceId, deviceHandle)"
| "handleArgument (BulkTransfer deviceId deviceHandle _) = Some (deviceId, deviceHandle)"
| "handleArgument (InterruptTransfer deviceId deviceHandle _) = Some (deviceId, deviceHandle)"
| "handleArgument _ = None"

fun unknownHandleError :: "request \<Rightarrow> nat \<Rightarrow> error" where
  "unknownHandleError (CloseDeviceHandle _ _) h = UnknownDeviceHandle h"
| "unknownHandleError _ h = NoDeviceHandle h"

definition listed :: system where
  "listed = the (run enumeration (constructed exampleDevices))"

definition failedClose :: "event list" where
  "failedClose = [Request (CloseDeviceHandle 1 1), CallerReturns,
     HostSettles (Host 6) (Rejects (HostError 1)), RunMicrotask, RunMicrotask]"

definition afterFailedClose :: system where
  "afterFailedClose = the (run failedClose opened)"


definition firstSnapshot :: "event list" where
  "firstSnapshot = [CallerTask, Request ListDevices, CallerReturns,
     HostSettles (Host 1) (Resolves (Devices [7, 8])), RunMicrotask, RunMicrotask]"

definition secondSnapshot :: "event list" where
  "secondSnapshot = [Request ListDevices, CallerReturns,
     HostSettles (Host 3) (Resolves (Devices [7, 9]))]"

definition reenumerating :: system where
  "reenumerating = the (run (firstSnapshot @ secondSnapshot) (constructed exampleDevices))"



definition reenumerated :: system where
  "reenumerated = the (step RunMicrotask reenumerating)"

section \<open>Properties of the descriptor walk\<close>

lemmas descConsts = CONFIGURATION_DESCRIPTOR_TYPE_def INTERFACE_DESCRIPTOR_TYPE_def ENDPOINT_DESCRIPTOR_TYPE_def
  CONFIGURATION_DESCRIPTOR_LENGTH_def INTERFACE_DESCRIPTOR_LENGTH_def ENDPOINT_DESCRIPTOR_LENGTH_def

lemma findIndex_map: "findIndex (\<lambda>x. f x = v) xs = findIndex (\<lambda>y. y = v) (map f xs)"
  by (induction xs) auto

lemma findIndex_less: "findIndex P xs = Some i \<Longrightarrow> i < length xs"
  by (induction xs arbitrary: i) (auto split: if_splits option.splits)

lemma map_modifyAt: "(\<And>x. g (f x) = g x) \<Longrightarrow> map g (modifyAt i f xs) = map g xs"
  by (auto simp: modifyAt_def map_update list_update_same_conv)

lemma skeleton_appendToTarget [simp]: "skeleton (appendToTarget bs t c) = skeleton c"
  by (cases t) (auto simp: skeleton_def appendToInterface_def appendToEndpoint_def intro!: map_modifyAt)

lemma skeleton_lengths:
  assumes "skeleton c' = skeleton c"
  shows "length (interfaces c') = length (interfaces c)"
    and "i < length (interfaces c) \<Longrightarrow> length (endpoints (interfaces c' ! i)) = length (endpoints (interfaces c ! i))"
proof -
  show l: "length (interfaces c') = length (interfaces c)"
    using assms by (auto simp: skeleton_def dest: map_eq_imp_length_eq)
  assume "i < length (interfaces c)"
  then have "map endpointAddress (endpoints (interfaces c' ! i)) = map endpointAddress (endpoints (interfaces c ! i))"
    using assms l by (auto simp: skeleton_def list_eq_iff_nth_eq)
  then show "length (endpoints (interfaces c' ! i)) = length (endpoints (interfaces c ! i))"
    by (rule map_eq_imp_length_eq)
qed

lemma inTree_skeleton: "skeleton c' = skeleton c \<Longrightarrow> inTree c' t = inTree c t"
  using skeleton_lengths [of c' c] by (cases t) auto

lemma targets_skeleton:
  "skeleton c' = skeleton c \<Longrightarrow> extraDataTargets c' itf ep rs = extraDataTargets c itf ep rs"
proof (induction rs arbitrary: itf ep)
  case Nil then show ?case by simp
next
  case (Cons r rs)
  have len: "length (interfaces c') = length (interfaces c)"
    using Cons.prems by (rule skeleton_lengths)
  have nums: "map interfaceNumber (interfaces c') = map interfaceNumber (interfaces c)"
    using Cons.prems by (auto simp: skeleton_def list_eq_iff_nth_eq) 
  have eps: "\<And>i. i < length (interfaces c) \<Longrightarrow>
      map endpointAddress (endpoints (interfaces c' ! i)) = map endpointAddress (endpoints (interfaces c ! i))"
    using Cons.prems by (auto simp: skeleton_def list_eq_iff_nth_eq)
  have fi: "\<And>v. findIndex (\<lambda>i. interfaceNumber i = v) (interfaces c') = findIndex (\<lambda>i. interfaceNumber i = v) (interfaces c)"
    by (simp add: findIndex_map [of interfaceNumber] nums)
  have fe: "\<And>v i. i < length (interfaces c) \<Longrightarrow> findIndex (\<lambda>e. endpointAddress e = v) (endpoints (interfaces c' ! i))
       = findIndex (\<lambda>e. endpointAddress e = v) (endpoints (interfaces c ! i))"
    by (simp add: findIndex_map [of endpointAddress] eps)
  show ?case
    using Cons.IH [OF Cons.prems] by (auto simp: fi fe len split: option.splits)
qed

lemma targets_inTree:
  "pointersInTree c itf ep \<Longrightarrow> (t, bs) \<in> set (extraDataTargets c itf ep rs) \<Longrightarrow> inTree c t"
proof (induction rs arbitrary: itf ep)
  case Nil then show ?case by simp
next
  case (Cons r rs)
  have a: "\<And>v. pointersInTree c (findIndex (\<lambda>i. interfaceNumber i = v) (interfaces c)) None"
    by (auto simp: pointersInTree_def dest: findIndex_less)
  have b: "\<And>v. pointersInTree c itf (case itf of None \<Rightarrow> None
                 | Some i \<Rightarrow> if i < length (interfaces c)
                     then map_option (Pair i) (findIndex (\<lambda>e. endpointAddress e = v) (endpoints (interfaces c ! i)))
                     else None)"
    using Cons.prems(1) by (auto simp: pointersInTree_def dest: findIndex_less split: option.splits)
  show ?case
    using Cons.prems Cons.IH [OF a] Cons.IH [OF b] Cons.IH [OF Cons.prems(1)]
    by (auto simp: pointersInTree_def split: if_splits option.splits)
qed

lemma extraDataAt_append:
  "inTree c t \<Longrightarrow>
   extraDataAt t' (appendToTarget bs t c) = (if t' = t then extraDataAt t c @ bs else extraDataAt t' c)"
  by (cases t; cases t')
     (auto simp: modifyAt_def appendToInterface_def appendToEndpoint_def appendExtraData_def nth_list_update
           split: option.splits)

lemma extraDataAt_attachAll:
  "\<forall>(t, bs) \<in> set ts. inTree c t \<Longrightarrow>
   extraDataAt t' (attachAll ts c) = extraDataAt t' c @ concat (map snd (filter (\<lambda>(t, bs). t = t') ts))"
proof (induction ts arbitrary: c)
  case Nil then show ?case by (simp add: attachAll_def)
next
  case (Cons x ts)
  obtain t bs where x: "x = (t, bs)" by (cases x)
  have "\<forall>(t', bs') \<in> set ts. inTree (appendToTarget bs t c) t'"
    using Cons.prems by (auto simp: inTree_skeleton [of "appendToTarget bs t c" c])
  from Cons.IH [OF this] Cons.prems show ?case
    by (auto simp: x attachAll_def extraDataAt_append simp del: appendToTarget.simps)
qed

lemma records_Cons:
  "descriptorRecords (b # bs) =
     (if unat b < 2 \<or> Suc (length bs) < unat b then []
      else take (unat b) (b # bs) # descriptorRecords (drop (unat b) (b # bs)))"
  by (subst descriptorRecords.simps) simp

lemma records_step:
  assumes "offset < length ds" "2 \<le> unat (ds ! offset)" "offset + unat (ds ! offset) \<le> length ds"
  shows "descriptorRecords (drop offset ds) =
     take (unat (ds ! offset)) (drop offset ds) # descriptorRecords (drop (offset + unat (ds ! offset)) ds)"
proof -
  have d: "drop offset ds = ds ! offset # drop (Suc offset) ds"
    using assms(1) by (simp add: Cons_nth_drop_Suc)
  have "descriptorRecords (ds ! offset # drop (Suc offset) ds) =
      take (unat (ds ! offset)) (ds ! offset # drop (Suc offset) ds)
      # descriptorRecords (drop (unat (ds ! offset)) (ds ! offset # drop (Suc offset) ds))"
    using assms by (subst records_Cons) auto
  then show ?thesis
    unfolding d [symmetric] by (simp add: add.commute)
qed

lemma records_stop:
  assumes "offset < length ds" "unat (ds ! offset) < 2 \<or> length ds < offset + unat (ds ! offset)"
  shows "descriptorRecords (drop offset ds) = []"
proof -
  have d: "drop offset ds = ds ! offset # drop (Suc offset) ds"
    using assms(1) by (simp add: Cons_nth_drop_Suc)
  show ?thesis
    unfolding d using assms by (subst records_Cons) auto
qed

lemma switch_total:
  assumes "offset + 2 < length ds \<or> len < 7"
  shows "\<exists>w'. switchDescriptorType ds offset len ty w = Inr w'"
  using assms by (auto simp: switchDescriptorType_def getUint8_def descConsts split: option.splits)

lemma step_agrees:
  assumes "switchDescriptorType ds offset (length r) (unat (r ! 1)) w = Inr w'"
    and "r = take (length r) (drop offset ds)"
    and "3 \<le> length r \<longrightarrow> getUint8 ds (offset + 2) = Inr (unat (r ! 2))"
  shows "attachAll (extraDataTargets (libusbJsConfiguration w) (currentInterface w) (currentEndpoint w) (r # rs))
           (libusbJsConfiguration w) =
         attachAll (extraDataTargets (libusbJsConfiguration w') (currentInterface w') (currentEndpoint w') rs)
           (libusbJsConfiguration w')"
proof -
  have sk: "\<And>bs t itf ep. extraDataTargets (appendToTarget bs t (libusbJsConfiguration w)) itf ep rs
      = extraDataTargets (libusbJsConfiguration w) itf ep rs"
    by (rule targets_skeleton) simp
  show ?thesis
    using assms(1,3) assms(2) [symmetric]
    by (auto simp: switchDescriptorType_def descConsts attachAll_def chooseTarget_def sk
          simp del: appendToTarget.simps split: if_splits option.splits)
qed

lemma parseDescriptors_malformed:
  assumes "offset < totalLength" "getUint8 descriptors offset = Inr n" "n < 2"
  shows "parseDescriptors descriptors totalLength offset w = (libusbJsConfiguration w, Returned)"
  using assms by (subst parseDescriptors.simps) simp

lemma parseDescriptors_records:
  "offset \<le> length ds \<Longrightarrow>
   parseDescriptors ds (length ds) offset w =
     (attachAll (extraDataTargets (libusbJsConfiguration w) (currentInterface w) (currentEndpoint w)
                  (descriptorRecords (drop offset ds))) (libusbJsConfiguration w), Returned)"
proof (induction ds "length ds" offset w rule: parseDescriptors.induct)
  case (1 ds offset w)
  show ?case
  proof (cases "offset < length ds")
    case False
    with "1.prems" show ?thesis
      by (subst parseDescriptors.simps) (simp add: descriptorRecords.simps attachAll_def)
  next
    case lt: True
    let ?len = "unat (ds ! offset)"
    show ?thesis
    proof (cases "?len < 2 \<or> length ds < offset + ?len")
      case True
      then show ?thesis using lt
        by (subst parseDescriptors.simps) (auto simp: getUint8_def records_stop attachAll_def)
    next
      case False
      then have len2: "2 \<le> ?len" and fits: "offset + ?len \<le> length ds" by auto
      let ?r = "take ?len (drop offset ds)"
      have rl: "length ?r = ?len" using fits by simp
      have r1: "?r ! 1 = ds ! (offset + 1)" using len2 fits by simp
      have r2: "3 \<le> ?len \<longrightarrow> ?r ! 2 = ds ! (offset + 2)" using fits by simp
      have g1: "getUint8 ds (offset + 1) = Inr (unat (ds ! (offset + 1)))"
        using len2 fits by (simp add: getUint8_def)
      have g2: "3 \<le> ?len \<longrightarrow> getUint8 ds (offset + 2) = Inr (unat (?r ! 2))"
        using fits r2 by (simp add: getUint8_def)
      have "offset + 2 < length ds \<or> ?len < 7" using fits by arith
      from switch_total [OF this]
      obtain w' where sw: "switchDescriptorType ds offset ?len (unat (ds ! (offset + 1))) w = Inr w'"
        by blast
      have IH: "parseDescriptors ds (length ds) (offset + ?len) w' =
          (attachAll (extraDataTargets (libusbJsConfiguration w') (currentInterface w') (currentEndpoint w')
                  (descriptorRecords (drop (offset + ?len) ds))) (libusbJsConfiguration w'), Returned)"
        using "1.hyps" [OF lt _ _ _ g1 sw] lt len2 fits by (simp add: getUint8_def)
      have unf: "parseDescriptors ds (length ds) offset w = parseDescriptors ds (length ds) (offset + ?len) w'"
        using lt len2 fits g1 sw by (subst parseDescriptors.simps) (simp add: getUint8_def)
      have "attachAll (extraDataTargets (libusbJsConfiguration w) (currentInterface w) (currentEndpoint w)
                (?r # descriptorRecords (drop (offset + ?len) ds))) (libusbJsConfiguration w) =
         attachAll (extraDataTargets (libusbJsConfiguration w') (currentInterface w') (currentEndpoint w')
                (descriptorRecords (drop (offset + ?len) ds))) (libusbJsConfiguration w')"
      proof (rule step_agrees)
        show "switchDescriptorType ds offset (length ?r) (unat (?r ! 1)) w = Inr w'"
          unfolding rl r1 by (rule sw)
        show "?r = take (length ?r) (drop offset ds)" unfolding rl ..
        show "3 \<le> length ?r \<longrightarrow> getUint8 ds (offset + 2) = Inr (unat (?r ! 2))"
          unfolding rl by (rule g2)
      qed
      then show ?thesis
        unfolding unf IH records_step [OF lt len2 fits] by simp
    qed
  qed
qed

lemma fillFromDescriptors_records:
  assumes "status t = ''ok''" "data t = Some ds"
  shows "fillFromDescriptors (length ds) t c =
     (attachAll (extraDataTargets c None None (descriptorRecords ds)) c, Returned)"
  using assms parseDescriptors_records [of 0 ds] by (simp add: fillFromDescriptors_def)

lemma fillFromDescriptors_Thrown:
  "snd (fillFromDescriptors n t c) \<noteq> Thrown e"
  using parseDescriptors_records [of 0 "the (data t)"]
  by (auto simp: fillFromDescriptors_def Let_def)

lemma records_unfold:
  assumes "blob = b # bs" "\<not> (unat b < 2 \<or> length blob < unat b)"
  shows "descriptorRecords blob = take (unat b) blob # descriptorRecords (drop (unat b) blob)"
  using assms by (subst descriptorRecords.simps) simp

lemma records_append:
  assumes "length (b # bs) = unat b" "2 \<le> unat b"
  shows "descriptorRecords ((b # bs) @ xs) = (b # bs) # descriptorRecords xs"
proof -
  have "descriptorRecords (b # (bs @ xs)) =
      take (unat b) (b # (bs @ xs)) # descriptorRecords (drop (unat b) (b # (bs @ xs)))"
    using assms by (intro records_unfold [OF refl]) auto
  moreover have "take (unat b) (b # (bs @ xs)) = b # bs" "drop (unat b) (b # (bs @ xs)) = xs"
    using assms(1) [symmetric] by simp_all
  ultimately show ?thesis by simp
qed

lemma records_prefix:
  "\<exists>rest. ds = concat (descriptorRecords ds) @ rest"
proof (induction ds rule: descriptorRecords.induct)
  case (1 blob)
  show ?case
  proof (cases blob)
    case Nil then show ?thesis by (simp add: descriptorRecords.simps)
  next
    case (Cons b bs)
    show ?thesis
    proof (cases "unat b < 2 \<or> length blob < unat b")
      case True then show ?thesis using Cons by (simp add: records_Cons)
    next
      case False
      with "1.IH" [OF Cons] obtain rest where
        r: "drop (unat b) blob = concat (descriptorRecords (drop (unat b) blob)) @ rest" by blast
      have "blob = take (unat b) blob @ drop (unat b) blob" by simp
      also have "\<dots> = take (unat b) blob @ concat (descriptorRecords (drop (unat b) blob)) @ rest"
        using r by simp
      also have "\<dots> = concat (descriptorRecords blob) @ rest"
        unfolding records_unfold [OF Cons False] by simp
      finally show ?thesis by blast
    qed
  qed
qed

lemma records_of_prefix:
  "descriptorRecords (concat (descriptorRecords ds)) = descriptorRecords ds"
proof (induction ds rule: descriptorRecords.induct)
  case (1 blob)
  show ?case
  proof (cases blob)
    case Nil then show ?thesis by (simp add: descriptorRecords.simps)
  next
    case (Cons b bs)
    show ?thesis
    proof (cases "unat b < 2 \<or> length blob < unat b")
      case True then show ?thesis using Cons by (simp add: records_Cons descriptorRecords.simps [of "[]"])
    next
      case False
      let ?r = "take (unat b) blob" and ?tl = "descriptorRecords (drop (unat b) blob)"
      obtain bs' where r: "?r = b # bs'" and l: "length (b # bs') = unat b"
        using False Cons by (cases "unat b") auto
      have "descriptorRecords (?r @ concat ?tl) = ?r # descriptorRecords (concat ?tl)"
        unfolding r using l False by (intro records_append) auto
      then show ?thesis
        using "1.IH" [OF Cons] False by (simp add: records_unfold [OF Cons False])
    qed
  qed
qed

lemma synthetic_records:
  "descriptorRecords syntheticBlob =
     [[9, 0x02, 29, 0, 1, 1, 0, 0x80, 50], [9, 0x04, 0, 0, 1, 0x0B, 0, 0, 0],
      [7, 0x05, 0x81, 2, 64, 0, 0], [4, 0xFF, 0xAA, 0xBB]]"
  by (simp add: syntheticBlob_def records_Cons descriptorRecords.simps [of "[]"])

lemma synthetic_targets:
  "extraDataTargets syntheticConfiguration None None (descriptorRecords syntheticBlob) =
     [(TargetEndpoint 0 0, [4, 0xFF, 0xAA, 0xBB])]"
  by (simp add: synthetic_records syntheticConfiguration_def syntheticInterface_def syntheticEndpoint_def)

lemma synthetic_walk:
  "fillFromDescriptors 29 \<lparr>status = ''ok'', data = Some syntheticBlob\<rparr> syntheticConfiguration =
     (syntheticConfiguration\<lparr>interfaces :=
        [syntheticInterface\<lparr>endpoints :=
           [syntheticEndpoint\<lparr>endpointExtraData := Some [4, 0xFF, 0xAA, 0xBB]\<rparr>]\<rparr>]\<rparr>, Returned)"
proof -
  have l: "length syntheticBlob = 29" by (simp add: syntheticBlob_def)
  have "attachAll [(TargetEndpoint 0 0, [4, 0xFF, 0xAA, 0xBB])] syntheticConfiguration =
      syntheticConfiguration\<lparr>interfaces :=
        [syntheticInterface\<lparr>endpoints :=
           [syntheticEndpoint\<lparr>endpointExtraData := Some [4, 0xFF, 0xAA, 0xBB]\<rparr>]\<rparr>]\<rparr>"
    by (simp add: attachAll_def modifyAt_def appendToEndpoint_def appendExtraData_def
          syntheticConfiguration_def syntheticInterface_def syntheticEndpoint_def)
  then show ?thesis
    using fillFromDescriptors_records
          [of "\<lparr>status = ''ok'', data = Some syntheticBlob\<rparr>" syntheticBlob syntheticConfiguration]
    unfolding l synthetic_targets by simp
qed

lemma malformedLater_records:
  "descriptorRecords malformedLaterBlob = [[9, 0x02, 14, 0, 0, 1, 0, 0x80, 50], [4, 0xFF, 0xAA, 0xBB]]"
  by (simp add: malformedLaterBlob_def records_Cons descriptorRecords.simps [of "[]"])

text \<open>
  Claim C5. After two successful transfers the walk leaves the tree as follows: every
  record of the blob whose type is not configuration (0x02), interface (0x04) or endpoint
  (0x05) has been appended, with its header, to the node that is current when the walk
  meets it (the current endpoint if one is set, else the current interface if one is set,
  else the configuration), one record after the other in the order of the blob. So the
  \<^verbatim>\<open>extraData\<close> of every node is what it was, followed by the records assigned to that
  node, in the order of the blob. For the synthetic blob of 29 bytes the four bytes of the
  last record end up in the endpoint 0x81 and nowhere else.
\<close>

theorem extra_data_attached_in_blob_order:
  "(status t = ''ok'' \<and> data t = Some ds \<longrightarrow>
      fillFromDescriptors (length ds) t c =
        (attachAll (extraDataTargets c None None (descriptorRecords ds)) c, Returned) \<and>
      (\<forall>node. extraDataAt node (fst (fillFromDescriptors (length ds) t c)) =
                extraDataAt node c
                @ concat (map snd (filter (\<lambda>(t, bs). t = node)
                                     (extraDataTargets c None None (descriptorRecords ds)))))) \<and>
   fillFromDescriptors 29 \<lparr>status = ''ok'', data = Some syntheticBlob\<rparr> syntheticConfiguration =
     (syntheticConfiguration\<lparr>interfaces :=
        [syntheticInterface\<lparr>endpoints :=
           [syntheticEndpoint\<lparr>endpointExtraData := Some [4, 0xFF, 0xAA, 0xBB]\<rparr>]\<rparr>]\<rparr>, Returned)"
proof (intro conjI impI allI)
  assume a: "status t = ''ok'' \<and> data t = Some ds"
  then show eq: "fillFromDescriptors (length ds) t c =
           (attachAll (extraDataTargets c None None (descriptorRecords ds)) c, Returned)"
    by (intro fillFromDescriptors_records) auto
  fix node
  have "\<forall>(t, bs) \<in> set (extraDataTargets c None None (descriptorRecords ds)). inTree c t"
    using targets_inTree [of c None None] by (auto simp: pointersInTree_def)
  then show "extraDataAt node (fst (fillFromDescriptors (length ds) t c)) =
           extraDataAt node c
           @ concat (map snd (filter (\<lambda>(t, bs). t = node)
                                 (extraDataTargets c None None (descriptorRecords ds))))"
    unfolding eq fst_conv by (rule extraDataAt_attachAll)
qed (rule synthetic_walk)

theorem extra_data_attached_in_blob_order_witness:
  "fillFromDescriptors 14 \<lparr>status = ''ok'', data = Some malformedLaterBlob\<rparr> bareConfiguration =
     (bareConfiguration\<lparr>configurationExtraData := Some [4, 0xFF, 0xAA, 0xBB]\<rparr>, Returned) \<and>
   extraDataAt TargetConfiguration
     (fst (fillFromDescriptors 14 \<lparr>status = ''ok'', data = Some malformedLaterBlob\<rparr> bareConfiguration)) =
     [4, 0xFF, 0xAA, 0xBB]"
proof -
  have l: "length malformedLaterBlob = 14" by (simp add: malformedLaterBlob_def)
  show ?thesis
    using extra_data_attached_in_blob_order
          [of "\<lparr>status = ''ok'', data = Some malformedLaterBlob\<rparr>" malformedLaterBlob bareConfiguration]
    unfolding l malformedLater_records
    by (simp add: attachAll_def appendExtraData_def bareConfiguration_def)
qed

lemma records_wellformed:
  "r \<in> set (descriptorRecords ds) \<Longrightarrow> \<exists>b bs. r = b # bs \<and> length r = unat b \<and> 2 \<le> unat b"
proof (induction ds rule: descriptorRecords.induct)
  case (1 blob)
  show ?case
  proof (cases blob)
    case Nil with "1.prems" show ?thesis by (simp add: descriptorRecords.simps)
  next
    case (Cons b bs)
    show ?thesis
    proof (cases "unat b < 2 \<or> length blob < unat b")
      case True with "1.prems" Cons show ?thesis by (simp add: records_Cons)
    next
      case False
      from "1.prems" have "r = take (unat b) blob \<or> r \<in> set (descriptorRecords (drop (unat b) blob))"
        unfolding records_unfold [OF Cons False] by simp
      then show ?thesis
      proof
        assume "r = take (unat b) blob"
        then show ?thesis using False Cons by (cases "unat b") auto
      next
        assume "r \<in> set (descriptorRecords (drop (unat b) blob))"
        with "1.IH" [OF Cons] False show ?thesis by blast
      qed
    qed
  qed
qed

lemma records_append_all:
  "(\<And>r. r \<in> set rs \<Longrightarrow> \<exists>b bs. r = b # bs \<and> length r = unat b \<and> 2 \<le> unat b) \<Longrightarrow>
   descriptorRecords (concat rs @ xs) = rs @ descriptorRecords xs"
proof (induction rs)
  case Nil then show ?case by simp
next
  case (Cons r rs)
  from Cons.prems [of r] obtain b bs where r: "r = b # bs" "length (b # bs) = unat b" "2 \<le> unat b"
    by auto
  have "descriptorRecords (r @ (concat rs @ xs)) = r # descriptorRecords (concat rs @ xs)"
    unfolding r(1) using r(2,3) by (rule records_append)
  then show ?case using Cons.IH Cons.prems by simp
qed

lemma records_stop_after:
  assumes "concat (descriptorRecords pre) = pre" "unat b < 2"
  shows "descriptorRecords (pre @ b # rest) = descriptorRecords pre"
proof -
  have "descriptorRecords (concat (descriptorRecords pre) @ b # rest) =
      descriptorRecords pre @ descriptorRecords (b # rest)"
    by (rule records_append_all) (rule records_wellformed)
  then show ?thesis using assms by (simp add: records_Cons)
qed

lemma getConfigurations_loop_length:
  "length (fst (getConfigurations_loop host w a cs acc h)) = length acc + length cs"
  by (induction cs arbitrary: acc h) (auto split: prod.splits)

lemma forOpenedDevice_Thrown_unchanged:
  assumes "snd (fst (fetchAndFillConfigurationExtraDataForOpenedDevice host w c h)) = Thrown e"
  shows "fst (fst (fetchAndFillConfigurationExtraDataForOpenedDevice host w c h)) = c"
  using assms fillFromDescriptors_Thrown
  by (auto simp: fetchAndFillConfigurationExtraDataForOpenedDevice_def
        split: prod.splits settlement.splits jsValue.splits sum.splits option.splits)

text \<open>
  Claim C3, as stated, fails: the device answers with a blob whose third record has the
  length 1; the walk has attached the second record to the configuration when it meets
  the malformed one at offset 13, and returns with that \<^verbatim>\<open>extraData\<close> in place.
\<close>

theorem malformed_descriptor_keeps_earlier_extra_data_counterexample:
  "getUint8 malformedLaterBlob 13 = Inr 1 \<and>
   fst (fetchAndFillConfigurationExtraDataForOpenedDevice (answeringDevice malformedLaterBlob) 7
          bareConfiguration ()) =
     (bareConfiguration\<lparr>configurationExtraData := Some [4, 0xFF, 0xAA, 0xBB]\<rparr>, Returned)"
proof -
  have l: "length malformedLaterBlob = 14" by (simp add: malformedLaterBlob_def)
  note recs = malformedLater_records
  have fill: "fillFromDescriptors 14 \<lparr>status = ''ok'', data = Some malformedLaterBlob\<rparr> bareConfiguration =
      (bareConfiguration\<lparr>configurationExtraData := Some [4, 0xFF, 0xAA, 0xBB]\<rparr>, Returned)"
    using fillFromDescriptors_records [of "\<lparr>status = ''ok'', data = Some malformedLaterBlob\<rparr>" malformedLaterBlob bareConfiguration]
    unfolding l recs by (simp add: attachAll_def appendExtraData_def bareConfiguration_def)
  have total: "readTotalLength \<lparr>status = ''ok'', data = Some (take 9 malformedLaterBlob)\<rparr> = Inr (Some 14)"
    by (simp add: readTotalLength_def getUint16_def malformedLaterBlob_def)
  have t: "take 14 malformedLaterBlob = malformedLaterBlob" using l by simp
  show ?thesis
    by (simp add: fetchAndFillConfigurationExtraDataForOpenedDevice_def answeringDevice_def
          CONFIGURATION_DESCRIPTOR_LENGTH_def total t fill)
       (simp add: getUint8_def malformedLaterBlob_def)
qed

text \<open>
  Claim C3, amended. A failure of the extraction is never surfaced: \<^verbatim>\<open>getConfigurations\<close>
  fails only when the deviceId is unknown, and otherwise returns one descriptor for each
  configuration. A failure before the walk attaches nothing: when the device cannot be
  opened, and whenever the function for the opened device throws, the tree is as it was.
  A malformed record (length below 2) that follows whole records ends the walk there: the
  result is that of the walk over the records before it, whose \<^verbatim>\<open>extraData\<close> stays.
\<close>

theorem extraction_failure_not_surfaced:
  "(getDeviceByIdOrThrow s deviceId = Inr d \<longrightarrow>
      (\<exists>cs. fst (getConfigurations host s deviceId h) = Inr cs \<and>
             length cs = length (usb_configurations (usb s (webusbDevice (deviceStates s d)))))) \<and>
   (host (UsbOpen w) h = (Rejects e, h1) \<longrightarrow>
      fst (fst (fetchAndFillConfigurationExtraData host w c h)) = c) \<and>
   (snd (fst (fetchAndFillConfigurationExtraDataForOpenedDevice host w c h)) = Thrown e \<longrightarrow>
      fst (fst (fetchAndFillConfigurationExtraDataForOpenedDevice host w c h)) = c) \<and>
   (status t = ''ok'' \<and> data t = Some (pre @ b # rest) \<and> concat (descriptorRecords pre) = pre \<and> unat b < 2 \<longrightarrow>
      fillFromDescriptors (length (pre @ b # rest)) t c =
        fillFromDescriptors (length pre) (t\<lparr>data := Some pre\<rparr>) c)"
proof (intro conjI impI)
  assume "getDeviceByIdOrThrow s deviceId = Inr d"
  then show "\<exists>cs. fst (getConfigurations host s deviceId h) = Inr cs \<and>
             length cs = length (usb_configurations (usb s (webusbDevice (deviceStates s d))))"
    using getConfigurations_loop_length
            [of host "webusbDevice (deviceStates s d)"
               "map_option usb_configurationValue (usb_configuration (usb s (webusbDevice (deviceStates s d))))"
               "usb_configurations (usb s (webusbDevice (deviceStates s d)))" "[]" h]
    by (auto simp: getConfigurations_def Let_def split: prod.splits)
next
  assume "host (UsbOpen w) h = (Rejects e, h1)"
  then show "fst (fst (fetchAndFillConfigurationExtraData host w c h)) = c"
    by (simp add: fetchAndFillConfigurationExtraData_def)
next
  assume "snd (fst (fetchAndFillConfigurationExtraDataForOpenedDevice host w c h)) = Thrown e"
  then show "fst (fst (fetchAndFillConfigurationExtraDataForOpenedDevice host w c h)) = c"
    by (rule forOpenedDevice_Thrown_unchanged)
next
  assume a: "status t = ''ok'' \<and> data t = Some (pre @ b # rest) \<and> concat (descriptorRecords pre) = pre \<and> unat b < 2"
  then have "descriptorRecords (pre @ b # rest) = descriptorRecords pre"
    by (intro records_stop_after) auto
  then show "fillFromDescriptors (length (pre @ b # rest)) t c =
        fillFromDescriptors (length pre) (t\<lparr>data := Some pre\<rparr>) c"
    using a fillFromDescriptors_records [of t "pre @ b # rest" c]
      fillFromDescriptors_records [of "t\<lparr>data := Some pre\<rparr>" pre c]
    by simp
qed

lemma enumerated_lookup:
  "getDeviceByIdOrThrow enumerated 1 = Inr 0" "getDeviceByIdOrThrow enumerated (Suc 0) = Inr 0"
  by (simp_all add: enumerated_def updateDeviceMap_def getDeviceId_def constructed_def newDeviceState_def
        getDeviceByIdOrThrow_def mapGet_def)

lemma enumerated_device: "webusbDevice (deviceStates enumerated 0) = 7" "usb enumerated = exampleDevices"
  by (simp_all add: enumerated_def updateDeviceMap_def getDeviceId_def constructed_def newDeviceState_def)

theorem extraction_failure_not_surfaced_witness:
  "getDeviceByIdOrThrow enumerated 1 = Inr 0 \<and>
   fst (getConfigurations refusingDevice enumerated 1 ()) = Inr [bareConfiguration\<lparr>active := False\<rparr>] \<and>
   refusingDevice (UsbOpen 7) () = (Rejects (HostError 1), ()) \<and>
   fst (fetchAndFillConfigurationExtraData refusingDevice 7 bareConfiguration ()) =
     (bareConfiguration, Thrown (HostError 1)) \<and>
   fst (fetchAndFillConfigurationExtraDataForOpenedDevice refusingDevice 7 bareConfiguration ()) =
     (bareConfiguration, Thrown (HostError 1)) \<and>
   concat (descriptorRecords (take 13 malformedLaterBlob)) = take 13 malformedLaterBlob \<and>
   fillFromDescriptors 14 \<lparr>status = ''ok'', data = Some (take 13 malformedLaterBlob @ [1])\<rparr> bareConfiguration =
     fillFromDescriptors 13 \<lparr>status = ''ok'', data = Some (take 13 malformedLaterBlob)\<rparr> bareConfiguration"
proof -
  have pre: "concat (descriptorRecords (take 13 malformedLaterBlob)) = take 13 malformedLaterBlob"
    by (simp add: malformedLaterBlob_def records_Cons descriptorRecords.simps [of "[]"])
  have cfg: "fst (getConfigurations refusingDevice enumerated 1 ()) = Inr [bareConfiguration\<lparr>active := False\<rparr>]"
    by (simp add: getConfigurations_def enumerated_lookup enumerated_device exampleDevices_def
          fetchAndFillConfigurationExtraData_def refusingDevice_def getLibusbJsConfigurationDescriptor_def
          getLibusbJsInterfaceDescriptor_def bareConfiguration_def List.map_filter_simps)
  have opened: "fst (fetchAndFillConfigurationExtraDataForOpenedDevice refusingDevice 7 bareConfiguration ()) =
     (bareConfiguration, Thrown (HostError 1))"
    by (simp add: fetchAndFillConfigurationExtraDataForOpenedDevice_def refusingDevice_def)
  have l: "length (take 13 malformedLaterBlob @ [1]) = 14" "length (take 13 malformedLaterBlob) = 13"
    by (simp_all add: malformedLaterBlob_def)
  have n: "length (usb_configurations (usb enumerated (webusbDevice (deviceStates enumerated 0)))) = 1"
    by (simp add: enumerated_device exampleDevices_def)
  show ?thesis
    using extraction_failure_not_surfaced
      [of enumerated 1 0 refusingDevice "()" 7 "HostError 1" "()" bareConfiguration
          "\<lparr>status = ''ok'', data = Some (take 13 malformedLaterBlob @ [1])\<rparr>"
          "take 13 malformedLaterBlob" 1 "[]"] cfg opened pre
    unfolding l n
    by (simp add: enumerated_lookup fetchAndFillConfigurationExtraData_def refusingDevice_def)
qed


text \<open>
  Claim C4. If the first GET_DESCRIPTOR transfer reports a status other than ok or
  brings no data, or if the second one does, or brings a number of bytes different from
  the total length read from the header, the function returns before the walk and the
  configuration tree is exactly what it was.
\<close>

theorem failed_transfer_leaves_tree_unchanged:
  assumes "host (UsbControlTransferIn w (getDescriptorParameters c) CONFIGURATION_DESCRIPTOR_LENGTH) h
             = (Resolves (InTransferResult t1), h1)"
    and "status t1 \<noteq> ''ok'' \<or> data t1 = None \<or>
         (\<exists>totalLength t2 h2.
            readTotalLength t1 = Inr (Some totalLength) \<and>
            host (UsbControlTransferIn w (getDescriptorParameters c) totalLength) h1
              = (Resolves (InTransferResult t2), h2) \<and>
            (status t2 \<noteq> ''ok'' \<or> data t2 = None \<or> length (the (data t2)) \<noteq> totalLength))"
  shows "fst (fetchAndFillConfigurationExtraDataForOpenedDevice host w c h) = (c, Returned)"
  using assms
  by (auto simp: fetchAndFillConfigurationExtraDataForOpenedDevice_def readTotalLength_def
        fillFromDescriptors_def Let_def split: sum.splits option.splits if_splits)

theorem failed_transfer_leaves_tree_unchanged_witness:
  "fst (fetchAndFillConfigurationExtraDataForOpenedDevice stallingDevice 7 syntheticConfiguration ())
     = (syntheticConfiguration, Returned)"
  by (rule failed_transfer_leaves_tree_unchanged [where ?t1.0 = "\<lparr>status = ''stall'', data = None\<rparr>" and ?h1.0 = "()"])
     (simp_all add: stallingDevice_def)

text \<open>
  Claim C6. A record whose length byte is below 2 ends the walk at that record: the
  function returns with the tree as it is at that point. The walk is a total function
  (its termination is proved with its definition, every other record moving the offset
  forward by at least 2), so it ends on every blob. When the blob starts with such a
  record, the tree is returned unchanged, with no \<^verbatim>\<open>extraData\<close> attached.
\<close>

theorem malformed_length_ends_walk:
  "(offset < totalLength \<and> getUint8 descriptors offset = Inr n \<and> n < 2 \<longrightarrow>
      parseDescriptors descriptors totalLength offset w = (libusbJsConfiguration w, Returned)) \<and>
   (data t = Some (b # bs) \<and> unat b < 2 \<longrightarrow> fillFromDescriptors requested t c = (c, Returned))"
  using parseDescriptors_malformed [of 0 requested "b # bs" "unat b"]
  by (auto simp: parseDescriptors_malformed fillFromDescriptors_def Let_def getUint8_def)

theorem malformed_length_ends_walk_witness:
  "parseDescriptors malformedLaterBlob 14 13
      \<lparr>currentInterface = None, currentEndpoint = None, libusbJsConfiguration = bareConfiguration\<rparr>
     = (bareConfiguration, Returned) \<and>
   fillFromDescriptors 9 \<lparr>status = ''ok'', data = Some malformedFirstBlob\<rparr> syntheticConfiguration
     = (syntheticConfiguration, Returned)"
  using malformed_length_ends_walk [of 13 14 malformedLaterBlob 1
          "\<lparr>currentInterface = None, currentEndpoint = None, libusbJsConfiguration = bareConfiguration\<rparr>"
          "\<lparr>status = ''ok'', data = Some malformedFirstBlob\<rparr>" 1 "tl malformedFirstBlob" 9 syntheticConfiguration]
  by (simp add: getUint8_def malformedLaterBlob_def malformedFirstBlob_def)

section \<open>Properties of the adaptor\<close>

subsection \<open>What each operation leaves as it is\<close>

lemma enqueue_fields [simp]:
  "idToDeviceMap (enqueue k out s) = idToDeviceMap s"
  "nextFreeDeviceId (enqueue k out s) = nextFreeDeviceId s"
  "nextFreeDeviceHandle (enqueue k out s) = nextFreeDeviceHandle s"
  "deviceStates (enqueue k out s) = deviceStates s"
  "nextDeviceState (enqueue k out s) = nextDeviceState s"
  "promises (enqueue k out s) = promises s"
  "nextPromise (enqueue k out s) = nextPromise s"
  "callerRunning (enqueue k out s) = callerRunning s"
  "hostCalls (enqueue k out s) = hostCalls s"
  "usb (enqueue k out s) = usb s"
  "microtasks (enqueue k out s) = microtasks s @ [(k, out)]"
  by (simp_all add: enqueue_def)

lemma await_fields [simp]:
  "idToDeviceMap (await p k s) = idToDeviceMap s"
  "nextFreeDeviceId (await p k s) = nextFreeDeviceId s"
  "nextFreeDeviceHandle (await p k s) = nextFreeDeviceHandle s"
  "deviceStates (await p k s) = deviceStates s"
  "nextDeviceState (await p k s) = nextDeviceState s"
  "nextPromise (await p k s) = nextPromise s"
  "callerRunning (await p k s) = callerRunning s"
  "hostCalls (await p k s) = hostCalls s"
  "usb (await p k s) = usb s"
  by (simp_all add: await_def split: option.splits)

lemma settle_fields [simp]:
  "idToDeviceMap (settle p out s) = idToDeviceMap s"
  "nextFreeDeviceId (settle p out s) = nextFreeDeviceId s"
  "nextFreeDeviceHandle (settle p out s) = nextFreeDeviceHandle s"
  "deviceStates (settle p out s) = deviceStates s"
  "nextDeviceState (settle p out s) = nextDeviceState s"
  "nextPromise (settle p out s) = nextPromise s"
  "callerRunning (settle p out s) = callerRunning s"
  "hostCalls (settle p out s) = hostCalls s"
  "usb (settle p out s) = usb s"
  by (simp_all add: settle_def split: option.splits)

lemma updateDeviceState_fields [simp]:
  "idToDeviceMap (updateDeviceState d f s) = idToDeviceMap s"
  "nextFreeDeviceId (updateDeviceState d f s) = nextFreeDeviceId s"
  "nextFreeDeviceHandle (updateDeviceState d f s) = nextFreeDeviceHandle s"
  "deviceStates (updateDeviceState d f s) = (deviceStates s)(d := f (deviceStates s d))"
  "nextDeviceState (updateDeviceState d f s) = nextDeviceState s"
  "promises (updateDeviceState d f s) = promises s"
  "nextPromise (updateDeviceState d f s) = nextPromise s"
  "microtasks (updateDeviceState d f s) = microtasks s"
  "callerRunning (updateDeviceState d f s) = callerRunning s"
  "hostCalls (updateDeviceState d f s) = hostCalls s"
  "usb (updateDeviceState d f s) = usb s"
  by (simp_all add: updateDeviceState_def)

lemma allocatesOnly_refl: "allocatesOnly s s"
  by (simp add: allocatesOnly_def)

lemma allocatesOnly_trans: "allocatesOnly s t \<Longrightarrow> allocatesOnly t u \<Longrightarrow> allocatesOnly s u"
  unfolding allocatesOnly_def
  apply (intro conjI allI)
            apply simp_all
  subgoal for d by (elim conjE allE [of _ d]) auto
  done

lemma allocatesOnly_new:
  "allocatesOnly s (snd (newDeviceState w (s\<lparr>nextFreeDeviceId := nextFreeDeviceId s + 1\<rparr>)))"
  by (simp add: allocatesOnly_def newDeviceState_def)

lemma updateDeviceMap_loop_frame:
  "updateDeviceMap_loop ws N s = (N', s') \<Longrightarrow> allocatesOnly s s'"
proof (induction ws arbitrary: N s)
  case Nil
  then show ?case by (simp add: allocatesOnly_refl)
next
  case (Cons w rest)
  show ?case
  proof (cases "getDeviceId s w")
    case None
    obtain d s1 where n: "newDeviceState w (s\<lparr>nextFreeDeviceId := nextFreeDeviceId s + 1\<rparr>) = (d, s1)"
      by (cases "newDeviceState w (s\<lparr>nextFreeDeviceId := nextFreeDeviceId s + 1\<rparr>)")
    have "allocatesOnly s s1" using allocatesOnly_new [of s w] n by simp
    moreover have "allocatesOnly s1 s'"
      using Cons.prems None n by (intro Cons.IH [of "mapSet (nextFreeDeviceId s) d N"]) simp
    ultimately show ?thesis by (rule allocatesOnly_trans)
  next
    case (Some i)
    then show ?thesis
      using Cons.prems Cons.IH by (cases "mapGet (idToDeviceMap s) i") auto
  qed
qed

lemma updateDeviceMap_allocates:
  "\<exists>N s'. updateDeviceMap ws s = s'\<lparr>idToDeviceMap := N\<rparr> \<and> allocatesOnly s s' \<and>
           updateDeviceMap_loop ws [] s = (N, s')"
proof -
  obtain N s' where l: "updateDeviceMap_loop ws [] s = (N, s')"
    by (cases "updateDeviceMap_loop ws [] s")
  from updateDeviceMap_loop_frame [OF l] have "allocatesOnly s s'" .
  moreover have "updateDeviceMap ws s = s'\<lparr>idToDeviceMap := N\<rparr>"
    by (simp add: updateDeviceMap_def l)
  ultimately show ?thesis using l by blast
qed

lemma updateDeviceMap_frame:
  "nextFreeDeviceHandle (updateDeviceMap ws s) = nextFreeDeviceHandle s \<and>
   promises (updateDeviceMap ws s) = promises s \<and>
   nextPromise (updateDeviceMap ws s) = nextPromise s \<and>
   microtasks (updateDeviceMap ws s) = microtasks s \<and>
   callerRunning (updateDeviceMap ws s) = callerRunning s \<and>
   hostCalls (updateDeviceMap ws s) = hostCalls s \<and>
   usb (updateDeviceMap ws s) = usb s \<and>
   nextFreeDeviceId s \<le> nextFreeDeviceId (updateDeviceMap ws s) \<and>
   nextDeviceState s \<le> nextDeviceState (updateDeviceMap ws s)"
proof -
  from updateDeviceMap_allocates [of ws s] obtain N s' where
    u: "updateDeviceMap ws s = s'\<lparr>idToDeviceMap := N\<rparr>" and a: "allocatesOnly s s'" by blast
  from a show ?thesis unfolding u allocatesOnly_def by simp
qed

lemmas updateDeviceMap_fields [simp] =
  updateDeviceMap_frame [THEN conjunct1]
  updateDeviceMap_frame [THEN conjunct2, THEN conjunct1]
  updateDeviceMap_frame [THEN conjunct2, THEN conjunct2, THEN conjunct1]
  updateDeviceMap_frame [THEN conjunct2, THEN conjunct2, THEN conjunct2, THEN conjunct1]
  updateDeviceMap_frame [THEN conjunct2, THEN conjunct2, THEN conjunct2, THEN conjunct2, THEN conjunct1]
  updateDeviceMap_frame [THEN conjunct2, THEN conjunct2, THEN conjunct2, THEN conjunct2, THEN conjunct2,
    THEN conjunct1]
  updateDeviceMap_frame [THEN conjunct2, THEN conjunct2, THEN conjunct2, THEN conjunct2, THEN conjunct2,
    THEN conjunct2, THEN conjunct1]

lemma updateDeviceMap_deviceStates:
  "deviceStates (updateDeviceMap ws s) d = deviceStates s d \<or>
     nextDeviceState s \<le> d \<and> d < nextDeviceState (updateDeviceMap ws s) \<and>
     handles (deviceStates (updateDeviceMap ws s) d) = {} \<and>
     openOperationPromise (deviceStates (updateDeviceMap ws s) d) = None \<and>
     closeOperationPromise (deviceStates (updateDeviceMap ws s) d) = None"
proof -
  from updateDeviceMap_allocates [of ws s] obtain N s' where
    u: "updateDeviceMap ws s = s'\<lparr>idToDeviceMap := N\<rparr>" and a: "allocatesOnly s s'" by blast
  from a have "deviceStates s' d = deviceStates s d \<or>
          nextDeviceState s \<le> d \<and> d < nextDeviceState s' \<and>
          handles (deviceStates s' d) = {} \<and> openOperationPromise (deviceStates s' d) = None \<and>
          closeOperationPromise (deviceStates s' d) = None"
    unfolding allocatesOnly_def by blast
  then show ?thesis unfolding u by simp
qed

subsection \<open>Runs\<close>

lemma run_append: "run (es @ es') s = (case run es s of None \<Rightarrow> None | Some s' \<Rightarrow> run es' s')"
  by (induction es arbitrary: s) (auto split: option.splits)

lemma reachable_constructed: "reachable (constructed devices)"
  unfolding reachable_def by (intro exI [of _ devices] exI [of _ "[]"]) simp

lemma reachable_step: "reachable s \<Longrightarrow> step e s = Some s' \<Longrightarrow> reachable s'"
  unfolding reachable_def
proof (elim exE)
  fix devices es
  assume "step e s = Some s'" "run es (constructed devices) = Some s"
  then have "run (es @ [e]) (constructed devices) = Some s'"
    by (simp add: run_append)
  then show "\<exists>devices es. run es (constructed devices) = Some s'" by blast
qed

lemma reachable_run: "reachable s \<Longrightarrow> run es s = Some s' \<Longrightarrow> reachable s'"
proof (induction es arbitrary: s)
  case Nil
  then show ?case by simp
next
  case (Cons e es)
  from Cons.prems(2) obtain t where t: "step e s = Some t" "run es t = Some s'"
    by (cases "step e s") auto
  from Cons.prems(1) t(1) have "reachable t" by (rule reachable_step)
  then show ?case using t(2) by (rule Cons.IH)
qed

lemma run_invariant:
  assumes "run es s = Some s'" "P s" "\<And>e t t'. P t \<Longrightarrow> step e t = Some t' \<Longrightarrow> P t'"
  shows "P s'"
  using assms(1,2)
proof (induction es arbitrary: s)
  case Nil
  then show ?case by simp
next
  case (Cons e es)
  from Cons.prems(1) obtain t where t: "step e s = Some t" "run es t = Some s'"
    by (cases "step e s") auto
  from Cons.prems(2) t(1) have "P t" by (rule assms(3))
  with t(2) show ?case by (rule Cons.IH)
qed

text \<open>A property of the constructed state that every event keeps holds in every state.\<close>

lemma reachable_invariant:
  assumes "reachable s" "\<And>devices. P (constructed devices)"
    "\<And>e t t'. reachable t \<Longrightarrow> P t \<Longrightarrow> step e t = Some t' \<Longrightarrow> P t'"
  shows "P s"
proof -
  from assms(1) obtain devices es where r: "run es (constructed devices) = Some s"
    unfolding reachable_def by blast
  have "reachable s \<and> P s"
    using r
  proof (rule run_invariant [where P = "\<lambda>t. reachable t \<and> P t"])
    show "reachable (constructed devices) \<and> P (constructed devices)"
      by (simp add: reachable_constructed assms(2))
  next
    fix e t t'
    assume "reachable t \<and> P t" "step e t = Some t'"
    then show "reachable t' \<and> P t'"
      by (auto intro: assms(3) reachable_step)
  qed
  then show ?thesis ..
qed

subsection \<open>Handles\<close>

lemmas handler_defs =
  listDevices_def listDevices_resume_def getConfigurations_call_def getConfigurations_iterate_def
  openDeviceHandle_def openDeviceHandle_newHandle_def openDeviceHandle_resume_def
  openWebusbDevice_def openWebusbDevice_open_def openWebusbDevice_afterClose_def
  openWebusbDevice_afterOpen_def closeDeviceHandle_def closeDeviceHandle_resume_def
  handleOperation_def handleOperation_resume_def controlTransfer_def genericTransfer_def
  transfer_resume_def getLibusbJsTransferResultOrThrow_def fetchAndFill_afterOpen_def
  forOpenedDevice_afterHeader_def forOpenedDevice_afterDescriptors_def
  fetchAndFill_afterExtraction_def fetchAndFill_afterClose_def getConfigurations_afterFetch_def
  callHost_def newPromise_def call_def

lemma handlesStep_same:
  "deviceStates s' = deviceStates s \<Longrightarrow> nextFreeDeviceHandle s' = nextFreeDeviceHandle s \<Longrightarrow>
   handlesStep s s'"
  by (simp add: handlesStep_def)

lemma handlesStep_resume: "handlesStep s (resume k out (s\<lparr>microtasks := rest\<rparr>))"
proof (cases k)
  case (ListDevices_resume r)
  show ?thesis
  proof (cases out)
    case (Resolves v)
    show ?thesis
    proof (cases v)
      case (Devices ws)
      have "\<And>d h. h \<in> handles (deviceStates (updateDeviceMap ws (s\<lparr>microtasks := rest\<rparr>)) d) \<Longrightarrow>
          h \<in> handles (deviceStates s d)"
      proof -
        fix d h
        assume h: "h \<in> handles (deviceStates (updateDeviceMap ws (s\<lparr>microtasks := rest\<rparr>)) d)"
        from updateDeviceMap_deviceStates [of ws "s\<lparr>microtasks := rest\<rparr>" d] h
        have "deviceStates (updateDeviceMap ws (s\<lparr>microtasks := rest\<rparr>)) d = deviceStates s d"
          by auto
        with h show "h \<in> handles (deviceStates s d)" by simp
      qed
      then show ?thesis
        using ListDevices_resume Resolves Devices
        by (simp add: handlesStep_def listDevices_resume_def Let_def)
    qed (simp_all add: ListDevices_resume Resolves handlesStep_def listDevices_resume_def)
  qed (simp add: ListDevices_resume handlesStep_def listDevices_resume_def)
qed (auto simp: handlesStep_def handler_defs Let_def
       split: settlement.splits jsValue.splits sum.splits option.splits prod.splits list.splits)

lemma handlesStep_call: "handlesStep s (snd (call req s))"
  by (cases req)
     (auto simp: handlesStep_def handler_defs Let_def getDeviceByIdOrThrow_def
        getDeviceByIdAndHandleOrThrow_def
       split: settlement.splits jsValue.splits sum.splits option.splits prod.splits list.splits)

lemma handlesStep_step: "step e s = Some s' \<Longrightarrow> handlesStep s s'"
proof (cases e)
  case (Request req)
  assume "step e s = Some s'"
  with Request show ?thesis using handlesStep_call [of s req] by (auto split: if_splits)
next
  case RunMicrotask
  assume "step e s = Some s'"
  with RunMicrotask show ?thesis
    using handlesStep_resume [of s]
    by (auto split: if_splits list.splits)
qed (auto simp: handlesStep_def split: if_splits)

lemma handlesBelowCounter_step:
  "handlesBelowCounter s \<Longrightarrow> handlesStep s s' \<Longrightarrow> handlesBelowCounter s'"
  unfolding handlesBelowCounter_def handlesStep_def by (meson less_le_trans)

lemma reachable_handlesBelowCounter: "reachable s \<Longrightarrow> handlesBelowCounter s"
proof (erule reachable_invariant)
  show "handlesBelowCounter (constructed devices)" for devices
    by (simp add: handlesBelowCounter_def constructed_def)
next
  fix e t t'
  assume "handlesBelowCounter t" "step e t = Some t'"
  then show "handlesBelowCounter t'"
    by (blast intro: handlesBelowCounter_step handlesStep_step)
qed

lemma retired_step: "retired h d s \<Longrightarrow> step e s = Some s' \<Longrightarrow> retired h d s'"
  using handlesStep_step [of e s s'] unfolding retired_def handlesStep_def
  by (metis less_le_trans nat_less_le)

lemma retired_run: "retired h d s \<Longrightarrow> run es s = Some s' \<Longrightarrow> retired h d s'"
  by (rule run_invariant [where P = "retired h d"]) (auto intro: retired_step)

lemma call_rejected_at_once:
  assumes "requestMethod req (Result (nextPromise s)) (snd (newPromise Result s)) =
             settle (Result (nextPromise s)) (Rejects e) (snd (newPromise Result s))"
  shows "settled (promises (snd (call req s)) (fst (call req s))) = Some (Rejects e)"
  using assms by (simp add: call_def newPromise_def settle_def await_def enqueue_def)

text \<open>
  Claim C10. Let \<open>h\<close> be in the handle set of the device state \<open>d\<close> that \<open>deviceId\<close>
  names, in a state that the adaptor can be in. When the call
  \<^verbatim>\<open>closeDeviceHandle(deviceId, h)\<close> returns to its caller, \<open>h\<close> is no longer in the set,
  and the close of WebUSB that the call has started, if any, is still unanswered.
  Whatever happens afterwards (in particular when WebUSB rejects the close and the call
  ends with that error), \<open>h\<close> is not in the set again, and every method that takes a
  handle, called with \<open>h\<close> under an identifier that names \<open>d\<close>, makes no call to WebUSB
  and is rejected at once: \<^verbatim>\<open>closeDeviceHandle\<close> with "Unknown device handle", the
  others (\<^verbatim>\<open>claimInterface\<close>, \<^verbatim>\<open>releaseInterface\<close>, \<^verbatim>\<open>resetDevice\<close>, \<^verbatim>\<open>controlTransfer\<close>,
  \<^verbatim>\<open>bulkTransfer\<close>, \<^verbatim>\<open>interruptTransfer\<close>) with "No device handle", the error of
  \<^verbatim>\<open>getDeviceByIdAndHandleOrThrow_\<close>.
\<close>

theorem closed_handle_stays_closed:
  assumes "reachable s"
    and "getDeviceByIdOrThrow s deviceId = Inr d"
    and "h \<in> handles (deviceStates s d)"
    and "step (Request (CloseDeviceHandle deviceId h)) s = Some s1"
    and "run es s1 = Some s2"
  shows "h \<notin> handles (deviceStates s1 d) \<and>
         set (hostCalls s1) - set (hostCalls s) \<subseteq> set (inFlight s1) \<and>
         h \<notin> handles (deviceStates s2 d) \<and>
         (\<forall>deviceId' req.
            getDeviceByIdOrThrow s2 deviceId' = Inr d \<and> handleArgument req = Some (deviceId', h) \<longrightarrow>
            getDeviceByIdAndHandleOrThrow s2 deviceId' h = Inl (NoDeviceHandle h) \<and>
            settled (promises (snd (call req s2)) (fst (call req s2)))
              = Some (Rejects (unknownHandleError req h)) \<and>
            hostCalls (snd (call req s2)) = hostCalls s2)"
proof -
  from assms(1) have "handlesBelowCounter s" by (rule reachable_handlesBelowCounter)
  with assms(3) have below: "h < nextFreeDeviceHandle s" by (auto simp: handlesBelowCounter_def)
  have s1: "s1 = snd (call (CloseDeviceHandle deviceId h) s)"
    using assms(4) by (auto split: if_splits)
  have gone: "h \<notin> handles (deviceStates s1 d)" and c: "nextFreeDeviceHandle s1 = nextFreeDeviceHandle s"
    using assms(2,3) unfolding s1
    by (auto simp: call_def closeDeviceHandle_def newPromise_def callHost_def getDeviceByIdOrThrow_def
          Let_def split: option.splits)
  then have "retired h d s1" using below by (simp add: retired_def)
  from this assms(5) have r2: "retired h d s2" by (rule retired_run)
  then have gone2: "h \<notin> handles (deviceStates s2 d)" by (simp add: retired_def)
  have "getDeviceByIdAndHandleOrThrow s2 deviceId' h = Inl (NoDeviceHandle h) \<and>
            settled (promises (snd (call req s2)) (fst (call req s2)))
              = Some (Rejects (unknownHandleError req h)) \<and>
            hostCalls (snd (call req s2)) = hostCalls s2"
    if l: "getDeviceByIdOrThrow s2 deviceId' = Inr d \<and> handleArgument req = Some (deviceId', h)"
    for deviceId' req
  proof -
    from l have m: "mapGet (idToDeviceMap s2) deviceId' = Some d"
      by (auto simp: getDeviceByIdOrThrow_def split: option.splits)
    have g: "getDeviceByIdAndHandleOrThrow s2 deviceId' h = Inl (NoDeviceHandle h)"
      using m gone2 by (simp add: getDeviceByIdAndHandleOrThrow_def)
    have g': "\<And>t. idToDeviceMap t = idToDeviceMap s2 \<Longrightarrow> deviceStates t = deviceStates s2 \<Longrightarrow>
        getDeviceByIdAndHandleOrThrow t deviceId' h = Inl (NoDeviceHandle h)"
      using m gone2 by (simp add: getDeviceByIdAndHandleOrThrow_def)
    have l': "\<And>t. idToDeviceMap t = idToDeviceMap s2 \<Longrightarrow> getDeviceByIdOrThrow t deviceId' = Inr d"
      using m by (simp add: getDeviceByIdOrThrow_def)
    have "settled (promises (snd (call req s2)) (fst (call req s2)))
              = Some (Rejects (unknownHandleError req h))"
      using l gone2
      by (cases req)
         (auto intro!: call_rejected_at_once
            simp: handleOperation_def closeDeviceHandle_def controlTransfer_def genericTransfer_def
              g' l' newPromise_def)
    moreover have "hostCalls (snd (call req s2)) = hostCalls s2"
      using l gone2
      by (cases req)
         (auto simp: call_def handleOperation_def closeDeviceHandle_def controlTransfer_def
              genericTransfer_def g' l' newPromise_def settle_def await_def enqueue_def
            split: option.splits)
    ultimately show ?thesis using g by simp
  qed
  moreover have "set (hostCalls s1) - set (hostCalls s) \<subseteq> set (inFlight s1)"
    using assms(2,3) unfolding s1
    by (auto simp: call_def closeDeviceHandle_def newPromise_def callHost_def getDeviceByIdOrThrow_def
          inFlight_def await_def settle_def enqueue_def updateDeviceState_def Let_def
          split: option.splits)
  ultimately show ?thesis using gone gone2 by blast
qed

lemmas run_defs = handler_defs settle_def await_def enqueue_def updateDeviceState_def inFlight_def
  updateDeviceMap_def newDeviceState_def getDeviceId_def getDeviceByIdOrThrow_def
  getDeviceByIdAndHandleOrThrow_def mapGet_def constructed_def Let_def

lemma run_opened: "run (enumeration @ firstOpen) (constructed exampleDevices) = Some opened"
  unfolding opened_def by (simp add: enumeration_def firstOpen_def run_defs)

lemma reachable_opened: "reachable opened"
  unfolding reachable_def using run_opened by blast

lemma opened_fields:
  "idToDeviceMap opened = [(1, 0)]" "handles (deviceStates opened 0) = {1}"
  "webusbDevice (deviceStates opened 0) = 7"
  "openOperationPromise (deviceStates opened 0) = None"
  "closeOperationPromise (deviceStates opened 0) = None"
  "callerRunning opened" "microtasks opened = []" "nextPromise opened = 5"
  "nextFreeDeviceHandle opened = 2"
  "hostCalls opened = [(Host 1, InListDevices, UsbGetDevices), (Host 4, InOpenWebusbDevice 0, UsbOpen 7)]"
  unfolding opened_def by (simp_all add: enumeration_def firstOpen_def run_defs)

text \<open>
  Claim C1. The markers \<^verbatim>\<open>openOperationPromise\<close> and \<^verbatim>\<open>closeOperationPromise\<close> order the
  calls that \<^verbatim>\<open>openDeviceHandle\<close> and \<^verbatim>\<open>closeDeviceHandle\<close> make, but
  \<^verbatim>\<open>fetchAndFillConfigurationExtraData\<close> calls \<^verbatim>\<open>open()\<close> and \<^verbatim>\<open>close()\<close> on the same WebUSB
  device without reading or setting them. With device 7 enumerated under the identifier 1,
  a caller that calls \<^verbatim>\<open>getConfigurations(1)\<close> and then \<^verbatim>\<open>openDeviceHandle(1)\<close> in one job
  has two \<^verbatim>\<open>open()\<close> calls on device 7 in flight at once; and when the open of
  \<^verbatim>\<open>getConfigurations\<close> is answered and its transfer fails, \<^verbatim>\<open>close()\<close> is called on
  device 7 while the \<^verbatim>\<open>open()\<close> of \<^verbatim>\<open>openDeviceHandle\<close> is still pending.
\<close>

theorem getConfigurations_opens_and_closes_beside_the_markers:
  "map_option inFlight
     (run (enumeration @ [Request (GetConfigurations 1), Request (OpenDeviceHandle 1)])
        (constructed exampleDevices))
     = Some [(Host 3, InFetchAndFill, UsbOpen 7), (Host 6, InOpenWebusbDevice 0, UsbOpen 7)] \<and>
   map_option inFlight
     (run (enumeration @ [Request (GetConfigurations 1), Request (OpenDeviceHandle 1), CallerReturns,
             HostSettles (Host 3) (Resolves Undefined), RunMicrotask,
             HostSettles (Host 7) (Rejects (HostError 1)), RunMicrotask, RunMicrotask])
        (constructed exampleDevices))
     = Some [(Host 6, InOpenWebusbDevice 0, UsbOpen 7), (Host 8, InFetchAndFill, UsbClose 7)]"
  by (simp add: enumeration_def run_defs exampleDevices_def getLibusbJsConfigurationDescriptor_def
        getDescriptorParameters_def List.map_filter_simps CONFIGURATION_DESCRIPTOR_LENGTH_def)

text \<open>
  Claim C8. A call of \<^verbatim>\<open>closeDeviceHandle\<close> with a handle that is in the set of the
  device: when it is the only handle of the set, the call adds one call of \<^verbatim>\<open>close()\<close> on
  the WebUSB device to the calls made so far; when the set holds another handle, the call
  makes no call to WebUSB. The rest of the function, run when the close is answered,
  makes no call to WebUSB either.
\<close>

theorem last_handle_issues_the_close:
  assumes "getDeviceByIdOrThrow s deviceId = Inr d"
    and "h \<in> handles (deviceStates s d)"
  shows "(handles (deviceStates s d) = {h} \<longrightarrow>
           hostCalls (snd (call (CloseDeviceHandle deviceId h) s)) =
             hostCalls s @ [(Host (Suc (nextPromise s)), InCloseDeviceHandle d,
                             UsbClose (webusbDevice (deviceStates s d)))]) \<and>
         (handles (deviceStates s d) \<noteq> {h} \<longrightarrow>
           hostCalls (snd (call (CloseDeviceHandle deviceId h) s)) = hostCalls s) \<and>
         hostCalls (resume (CloseDeviceHandle_resume d r) outcome t) = hostCalls t"
  using assms
  by (auto simp: call_def closeDeviceHandle_def closeDeviceHandle_resume_def newPromise_def
        callHost_def getDeviceByIdOrThrow_def Let_def
        split: option.splits settlement.splits)

theorem last_handle_issues_the_close_witness:
  "getDeviceByIdOrThrow opened 1 = Inr 0 \<and> handles (deviceStates opened 0) = {1} \<and>
   hostCalls (snd (call (CloseDeviceHandle 1 1) opened)) =
     [(Host 1, InListDevices, UsbGetDevices), (Host 4, InOpenWebusbDevice 0, UsbOpen 7),
      (Host 6, InCloseDeviceHandle 0, UsbClose 7)] \<and>
   getDeviceByIdOrThrow (snd (call (OpenDeviceHandle 1) opened)) 1 = Inr 0 \<and>
   handles (deviceStates (snd (call (OpenDeviceHandle 1) opened)) 0) = {1, 2} \<and>
   hostCalls (snd (call (CloseDeviceHandle 1 1) (snd (call (OpenDeviceHandle 1) opened)))) =
     [(Host 1, InListDevices, UsbGetDevices), (Host 4, InOpenWebusbDevice 0, UsbOpen 7)]"
proof -
  have l: "getDeviceByIdOrThrow opened 1 = Inr 0"
    by (simp add: getDeviceByIdOrThrow_def mapGet_def opened_fields)
  let ?t = "snd (call (OpenDeviceHandle 1) opened)"
  have t: "getDeviceByIdOrThrow ?t 1 = Inr 0" "handles (deviceStates ?t 0) = {1, 2}"
    "hostCalls ?t = hostCalls opened"
    by (auto simp: call_def openDeviceHandle_def openDeviceHandle_newHandle_def newPromise_def
          getDeviceByIdOrThrow_def mapGet_def opened_fields)
  from last_handle_issues_the_close [OF l, of 1 "Result 5" "Rejects (HostError 1)" opened]
    last_handle_issues_the_close [OF t(1), of 1 "Result 5" "Rejects (HostError 1)" opened]
  show ?thesis
    using l t by (simp add: opened_fields)
qed




lemma length_openResults [simp]: "length (openResults n N) = (if N = 0 then 1 else N)"
  by (simp add: openResults_def)









lemma find_Some_set: "find P xs = Some x \<Longrightarrow> x \<in> set xs \<and> P x"
  by (induction xs) (auto split: if_splits)

lemma getDeviceId_Some:
  "getDeviceId s w = Some i \<Longrightarrow> \<exists>d. (i, d) \<in> set (idToDeviceMap s) \<and> deviceOf s d = w"
  by (auto simp: getDeviceId_def deviceOf_def dest!: find_Some_set)

lemma getDeviceId_None:
  "getDeviceId s w = None \<longleftrightarrow> (\<forall>(i, d) \<in> set (idToDeviceMap s). deviceOf s d \<noteq> w)"
  by (auto simp: getDeviceId_def deviceOf_def find_None_iff)

lemma getDeviceId_cong:
  "idToDeviceMap t = idToDeviceMap s \<Longrightarrow>
   (\<And>i d. (i, d) \<in> set (idToDeviceMap s) \<Longrightarrow> deviceOf t d = deviceOf s d) \<Longrightarrow>
   getDeviceId t w = getDeviceId s w"
  unfolding getDeviceId_def deviceOf_def
  by (intro arg_cong [where f = "map_option fst"] find_cong) auto

lemma mapGet_distinct:
  "distinct (map fst m) \<Longrightarrow> (k, v) \<in> set m \<Longrightarrow> mapGet m k = Some v"
  by (simp add: mapGet_def)

lemma mapGet_None: "mapGet m k = None \<longleftrightarrow> k \<notin> fst ` set m"
  by (simp add: mapGet_def map_of_eq_None_iff)

lemma set_mapSet:
  "(\<And>v'. (k, v') \<in> set m \<Longrightarrow> v' = v) \<Longrightarrow> set (mapSet k v m) = insert (k, v) (set m)"
  by (induction k v m rule: mapSet.induct) auto

lemma keys_mapSet: "fst ` set (mapSet k v m) = insert k (fst ` set m)"
  by (induction k v m rule: mapSet.induct) auto

lemma distinct_mapSet: "distinct (map fst m) \<Longrightarrow> distinct (map fst (mapSet k v m))"
proof (induction m)
  case Nil then show ?case by simp
next
  case (Cons a m)
  then show ?case
    using keys_mapSet [of k v m] by (cases a) (auto simp: image_iff)
qed

lemma allocatesOnly_old:
  "allocatesOnly s t \<Longrightarrow> d < nextDeviceState s \<Longrightarrow> deviceStates t d = deviceStates s d"
  unfolding allocatesOnly_def by (metis not_le)

lemma allocatesOnly_getDeviceId:
  assumes "allocatesOnly s t" "registryInvariant s"
  shows "getDeviceId t w = getDeviceId s w"
proof (rule getDeviceId_cong)
  show "idToDeviceMap t = idToDeviceMap s" using assms(1) by (simp add: allocatesOnly_def)
  fix i d assume "(i, d) \<in> set (idToDeviceMap s)"
  then have "d < nextDeviceState s" using assms(2) by (auto simp: registryInvariant_def)
  then show "deviceOf t d = deviceOf s d"
    using allocatesOnly_old [OF assms(1)] by (simp add: deviceOf_def)
qed

lemma building_step:
  assumes b: "building s seen N t" and inv: "registryInvariant s"
    and loop: "updateDeviceMap_loop (w # rest) N t = (N', t')"
  shows "\<exists>N1 t1. building s (seen @ [w]) N1 t1 \<and> updateDeviceMap_loop rest N1 t1 = (N', t')"
proof -
  from b have a: "allocatesOnly s t" by (simp add: building_def)
  have same: "getDeviceId t w = getDeviceId s w" using a inv by (rule allocatesOnly_getDeviceId)
  have map: "idToDeviceMap t = idToDeviceMap s" using a by (simp add: allocatesOnly_def)
  have le: "nextFreeDeviceId s \<le> nextFreeDeviceId t" "nextDeviceState s \<le> nextDeviceState t"
    using a by (simp_all add: allocatesOnly_def)
  show ?thesis
  proof (cases "getDeviceId s w")
    case None
    let ?t0 = "t\<lparr>nextFreeDeviceId := nextFreeDeviceId t + 1\<rparr>"
    let ?d = "nextDeviceState t"
    let ?t1 = "snd (newDeviceState w ?t0)"
    let ?N1 = "mapSet (nextFreeDeviceId t) ?d N"
    have l: "updateDeviceMap_loop rest ?N1 ?t1 = (N', t')"
      using loop None same by (simp add: newDeviceState_def)
    have fresh: "\<And>v'. (nextFreeDeviceId t, v') \<in> set N \<Longrightarrow> v' = ?d"
      using b by (auto simp: building_def)
    have set1: "set ?N1 = insert (nextFreeDeviceId t, ?d) (set N)"
      using fresh by (rule set_mapSet)
    have a1: "allocatesOnly s ?t1"
      using a allocatesOnly_new [of t w] by (rule allocatesOnly_trans)
    have old: "\<And>i d. (i, d) \<in> set N \<Longrightarrow> deviceOf ?t1 d = deviceOf t d"
      using b by (auto simp: building_def deviceOf_def newDeviceState_def)
    have new: "deviceOf ?t1 ?d = w" by (simp add: deviceOf_def newDeviceState_def)
    have "building s (seen @ [w]) ?N1 ?t1"
      unfolding building_def
    proof (intro conjI)
      show "allocatesOnly s ?t1" by (rule a1)
      show "distinct (map fst ?N1)" using b by (auto simp: building_def intro: distinct_mapSet)
      show "\<forall>(i, d) \<in> set ?N1. i < nextFreeDeviceId ?t1 \<and> d < nextDeviceState ?t1 \<and>
              deviceOf ?t1 d \<in> set (seen @ [w])"
        unfolding set1 using b old new
        by (auto simp: building_def newDeviceState_def less_Suc_eq)
      show "\<forall>(i, d) \<in> set ?N1.
        (i, d) \<in> set (idToDeviceMap s) \<and> getDeviceId s (deviceOf s d) = Some i \<or>
        nextFreeDeviceId s \<le> i \<and> nextDeviceState s \<le> d \<and> getDeviceId s (deviceOf ?t1 d) = None"
        unfolding set1 using b old new None le
        by (auto simp: building_def)
      show "\<forall>w' \<in> set (seen @ [w]). \<exists>(i, d) \<in> set ?N1. deviceOf ?t1 d = w'"
        unfolding set1 using b old new
        by (fastforce simp: building_def)
    qed
    with l show ?thesis by blast
  next
    case (Some i)
    from getDeviceId_Some [OF Some] obtain d where d: "(i, d) \<in> set (idToDeviceMap s)" "deviceOf s d = w"
      by blast
    have g: "mapGet (idToDeviceMap t) i = Some d"
      unfolding map using inv d(1) by (auto simp: registryInvariant_def intro: mapGet_distinct)
    let ?N1 = "mapSet i d N"
    have l: "updateDeviceMap_loop rest ?N1 t = (N', t')"
      using loop Some same g by simp
    have dold: "d < nextDeviceState s" "i < nextFreeDeviceId s"
      using inv d(1) by (auto simp: registryInvariant_def)
    have dev: "deviceOf t d = w"
      using allocatesOnly_old [OF a dold(1)] d(2) by (simp add: deviceOf_def)
    have same_value: "\<And>v'. (i, v') \<in> set N \<Longrightarrow> v' = d"
    proof -
      fix v' assume "(i, v') \<in> set N"
      with b have "(i, v') \<in> set (idToDeviceMap s) \<or> nextFreeDeviceId s \<le> i"
        by (auto simp: building_def)
      with dold(2) have "(i, v') \<in> set (idToDeviceMap s)" by auto
      with d(1) inv show "v' = d"
        by (auto simp: registryInvariant_def dest: eq_key_imp_eq_value)
    qed
    have set1: "set ?N1 = insert (i, d) (set N)" using same_value by (rule set_mapSet)
    have "building s (seen @ [w]) ?N1 t"
      unfolding building_def
    proof (intro conjI)
      show "allocatesOnly s t" by (rule a)
      show "distinct (map fst ?N1)" using b by (auto simp: building_def intro: distinct_mapSet)
      show "\<forall>(i, d) \<in> set ?N1. i < nextFreeDeviceId t \<and> d < nextDeviceState t \<and>
              deviceOf t d \<in> set (seen @ [w])"
        unfolding set1 using b dev dold le by (auto simp: building_def)
      show "\<forall>(i, d) \<in> set ?N1.
        (i, d) \<in> set (idToDeviceMap s) \<and> getDeviceId s (deviceOf s d) = Some i \<or>
        nextFreeDeviceId s \<le> i \<and> nextDeviceState s \<le> d \<and> getDeviceId s (deviceOf t d) = None"
        unfolding set1 using b d Some by (auto simp: building_def)
      show "\<forall>w' \<in> set (seen @ [w]). \<exists>(i, d) \<in> set ?N1. deviceOf t d = w'"
        unfolding set1 using b dev by (fastforce simp: building_def)
    qed
    with l show ?thesis by blast
  qed
qed

lemma building_loop:
  "building s seen N t \<Longrightarrow> registryInvariant s \<Longrightarrow> updateDeviceMap_loop ws N t = (N', t') \<Longrightarrow>
   building s (seen @ ws) N' t'"
proof (induction ws arbitrary: seen N t)
  case Nil
  then show ?case by simp
next
  case (Cons w ws)
  from building_step [OF Cons.prems] obtain N1 t1 where
    "building s (seen @ [w]) N1 t1" "updateDeviceMap_loop ws N1 t1 = (N', t')" by blast
  from Cons.IH [OF this(1) Cons.prems(2) this(2)] show ?case by simp
qed

lemma building_updateDeviceMap:
  assumes "registryInvariant s"
  shows "\<exists>N t. updateDeviceMap ws s = t\<lparr>idToDeviceMap := N\<rparr> \<and> building s ws N t"
proof -
  obtain N t where l: "updateDeviceMap_loop ws [] s = (N, t)"
    by (cases "updateDeviceMap_loop ws [] s")
  have "building s [] [] s" by (simp add: building_def allocatesOnly_refl)
  from building_loop [OF this assms l] have "building s ws N t" by simp
  moreover have "updateDeviceMap ws s = t\<lparr>idToDeviceMap := N\<rparr>" by (simp add: updateDeviceMap_def l)
  ultimately show ?thesis by blast
qed

lemma getDeviceId_unique:
  assumes "registryInvariant s" "getDeviceId s w = Some i" "getDeviceId s w' = Some i"
  shows "w' = w"
proof -
  from getDeviceId_Some [OF assms(2)] getDeviceId_Some [OF assms(3)] obtain d d' where
    "(i, d) \<in> set (idToDeviceMap s)" "deviceOf s d = w"
    "(i, d') \<in> set (idToDeviceMap s)" "deviceOf s d' = w'" by blast
  with assms(1) show ?thesis
    by (auto simp: registryInvariant_def dest: eq_key_imp_eq_value)
qed

text \<open>What the enumeration does to the device map.\<close>

lemma updateDeviceMap_registry:
  assumes inv: "registryInvariant s"
  shows "registryInvariant (updateDeviceMap ws s)"
    and "getDeviceId (updateDeviceMap ws s) w \<noteq> None \<longleftrightarrow> w \<in> set ws"
    and "getDeviceId s w = Some i \<Longrightarrow> w \<in> set ws \<Longrightarrow> getDeviceId (updateDeviceMap ws s) w = Some i"
    and "getDeviceId s w = Some i \<Longrightarrow> w \<notin> set ws \<Longrightarrow> mapGet (idToDeviceMap (updateDeviceMap ws s)) i = None"
    and "j \<in> fst ` set (idToDeviceMap (updateDeviceMap ws s)) \<Longrightarrow>
           j \<in> fst ` set (idToDeviceMap s) \<or> nextFreeDeviceId s \<le> j"
    and "getDeviceId s w = None \<Longrightarrow> getDeviceId (updateDeviceMap ws s) w = Some i \<Longrightarrow>
           nextFreeDeviceId s \<le> i"
proof -
  from building_updateDeviceMap [OF inv, of ws] obtain N t where
    u: "updateDeviceMap ws s = t\<lparr>idToDeviceMap := N\<rparr>" and b: "building s ws N t" by blast
  let ?s' = "t\<lparr>idToDeviceMap := N\<rparr>"
  have a: "allocatesOnly s t" using b by (simp add: building_def)
  have dev: "\<And>d. deviceOf ?s' d = deviceOf t d" by (simp add: deviceOf_def)
  have entries: "\<And>i d. (i, d) \<in> set N \<Longrightarrow> i < nextFreeDeviceId t \<and> d < nextDeviceState t \<and> deviceOf t d \<in> set ws"
    using b by (auto simp: building_def)
  have origin: "\<And>i d. (i, d) \<in> set N \<Longrightarrow>
        (i, d) \<in> set (idToDeviceMap s) \<and> getDeviceId s (deviceOf s d) = Some i \<or>
        nextFreeDeviceId s \<le> i \<and> nextDeviceState s \<le> d \<and> getDeviceId s (deviceOf t d) = None"
    using b by (auto simp: building_def)
  have covered: "\<And>w. w \<in> set ws \<Longrightarrow> \<exists>i d. (i, d) \<in> set N \<and> deviceOf t d = w"
    using b by (fastforce simp: building_def)
  have old: "\<And>i d. (i, d) \<in> set (idToDeviceMap s) \<Longrightarrow> deviceOf t d = deviceOf s d"
    using inv allocatesOnly_old [OF a] by (auto simp: registryInvariant_def deviceOf_def)
  show "registryInvariant (updateDeviceMap ws s)"
    unfolding u registryInvariant_def using b entries by (auto simp: building_def)
  show present: "getDeviceId (updateDeviceMap ws s) w \<noteq> None \<longleftrightarrow> w \<in> set ws"
    unfolding u getDeviceId_None using entries covered dev by (simp split: prod.splits) fastforce
  show "getDeviceId (updateDeviceMap ws s) w = Some i" if g: "getDeviceId s w = Some i" and w: "w \<in> set ws"
  proof -
    from present w obtain j where j: "getDeviceId (updateDeviceMap ws s) w = Some j" by auto
    from getDeviceId_Some [OF this] obtain d where d: "(j, d) \<in> set N" "deviceOf t d = w"
      unfolding u by (auto simp: dev)
    from origin [OF d(1)] have "j = i"
    proof
      assume c: "(j, d) \<in> set (idToDeviceMap s) \<and> getDeviceId s (deviceOf s d) = Some j"
      then have "deviceOf s d = w" using old d(2) by auto
      with c g show ?thesis by simp
    next
      assume "nextFreeDeviceId s \<le> j \<and> nextDeviceState s \<le> d \<and> getDeviceId s (deviceOf t d) = None"
      with g d(2) show ?thesis by simp
    qed
    with j show ?thesis by simp
  qed
  show "mapGet (idToDeviceMap (updateDeviceMap ws s)) i = None" if g: "getDeviceId s w = Some i" and w: "w \<notin> set ws"
  proof (rule ccontr)
    assume "mapGet (idToDeviceMap (updateDeviceMap ws s)) i \<noteq> None"
    then obtain d where d: "(i, d) \<in> set N"
      unfolding u by (auto simp: mapGet_def dest: map_of_SomeD)
    from getDeviceId_Some [OF g] inv have "i < nextFreeDeviceId s"
      by (auto simp: registryInvariant_def)
    with origin [OF d] have c: "(i, d) \<in> set (idToDeviceMap s)" "getDeviceId s (deviceOf s d) = Some i"
      by auto
    from getDeviceId_unique [OF inv g c(2)] have "deviceOf s d = w" .
    with old [OF c(1)] entries [OF d] w show False by simp
  qed
  show "j \<in> fst ` set (idToDeviceMap s) \<or> nextFreeDeviceId s \<le> j"
    if "j \<in> fst ` set (idToDeviceMap (updateDeviceMap ws s))"
  proof -
    from that obtain d where "(j, d) \<in> set N" unfolding u by auto
    from origin [OF this] show ?thesis by force
  qed
  show "nextFreeDeviceId s \<le> i"
    if n: "getDeviceId s w = None" and g: "getDeviceId (updateDeviceMap ws s) w = Some i"
  proof -
    from getDeviceId_Some [OF g] obtain d where d: "(i, d) \<in> set N" "deviceOf t d = w"
      unfolding u by (auto simp: dev)
    from origin [OF d(1)] show ?thesis
    proof
      assume c: "(i, d) \<in> set (idToDeviceMap s) \<and> getDeviceId s (deviceOf s d) = Some i"
      then have "deviceOf s d = w" using old d(2) by auto
      with c n show ?thesis by simp
    qed simp
  qed
qed

lemma registrySame_call: "registrySame s (snd (call req s))"
  by (cases req)
     (auto simp: registrySame_def deviceOf_def handler_defs Let_def
       split: settlement.splits jsValue.splits sum.splits option.splits prod.splits list.splits)

lemma registrySame_resume:
  "\<not> (\<exists>r ws. k = ListDevices_resume r \<and> out = Resolves (Devices ws)) \<Longrightarrow>
   registrySame s (resume k out (s\<lparr>microtasks := rest\<rparr>))"
  by (cases k)
     (auto simp: registrySame_def deviceOf_def handler_defs Let_def
       split: settlement.splits jsValue.splits sum.splits option.splits prod.splits list.splits)

lemma registrySame_step:
  assumes "step e s = Some s'" "\<not> (e = RunMicrotask \<and> (\<exists>ws. enumerates s ws))"
  shows "registrySame s s'"
proof (cases e)
  case (Request req)
  with assms(1) show ?thesis using registrySame_call [of s req] by (auto split: if_splits)
next
  case RunMicrotask
  with assms obtain k out rest where
    m: "microtasks s = (k, out) # rest" "\<not> callerRunning s" "s' = resume k out (s\<lparr>microtasks := rest\<rparr>)"
    by (auto split: if_splits list.splits)
  with assms(2) RunMicrotask have "\<not> (\<exists>r ws. k = ListDevices_resume r \<and> out = Resolves (Devices ws))"
    by (auto simp: enumerates_def)
  then show ?thesis unfolding m(3) by (rule registrySame_resume)
qed (use assms(1) in \<open>auto simp: registrySame_def deviceOf_def split: if_splits\<close>)

lemma registryInvariant_dequeue [simp]:
  "registryInvariant (s\<lparr>microtasks := rest\<rparr>) = registryInvariant s"
  by (simp add: registryInvariant_def)

lemma getDeviceId_dequeue [simp]: "getDeviceId (s\<lparr>microtasks := rest\<rparr>) = getDeviceId s"
  by (rule ext) (simp add: getDeviceId_def)

lemma getDeviceId_settle [simp]: "getDeviceId (settle r out s) = getDeviceId s"
  by (rule ext) (simp add: getDeviceId_def settle_def split: option.splits)

lemma registryInvariant_settle [simp]: "registryInvariant (settle r out s) = registryInvariant s"
  by (simp add: registryInvariant_def settle_def split: option.splits)

lemma enumerates_step:
  assumes "enumerates s ws" "step RunMicrotask s = Some s'"
  shows "\<exists>r rest out. s' = settle r out (updateDeviceMap ws (s\<lparr>microtasks := rest\<rparr>))"
proof -
  from assms obtain r rest where
    m: "microtasks s = (ListDevices_resume r, Resolves (Devices ws)) # rest"
       "s' = listDevices_resume r (Resolves (Devices ws)) (s\<lparr>microtasks := rest\<rparr>)"
    by (auto simp: enumerates_def split: if_splits)
  show ?thesis unfolding m(2) by (auto simp: listDevices_resume_def Let_def)
qed

lemma getDeviceId_registrySame: "registrySame s s' \<Longrightarrow> getDeviceId s' = getDeviceId s"
  by (rule ext) (simp add: registrySame_def getDeviceId_def deviceOf_def)

lemma registryInvariant_step:
  assumes "registryInvariant s" "step e s = Some s'"
  shows "registryInvariant s'"
proof (cases "e = RunMicrotask \<and> (\<exists>ws. enumerates s ws)")
  case True
  then obtain ws where ws: "enumerates s ws" "step RunMicrotask s = Some s'" using assms(2) by auto
  from enumerates_step [OF this] obtain r rest out where
    "s' = settle r out (updateDeviceMap ws (s\<lparr>microtasks := rest\<rparr>))" by blast
  then show ?thesis using updateDeviceMap_registry(1) [of "s\<lparr>microtasks := rest\<rparr>" ws] assms(1)
    by simp
next
  case False
  from registrySame_step [OF assms(2) False] assms(1) show ?thesis
    by (simp add: registrySame_def registryInvariant_def)
qed

lemma reachable_registryInvariant: "reachable s \<Longrightarrow> registryInvariant s"
proof (erule reachable_invariant)
  show "registryInvariant (constructed devices)" for devices
    by (simp add: registryInvariant_def constructed_def)
qed (rule registryInvariant_step)

lemma dropped_step:
  assumes "dropped i s" "step e s = Some s'"
  shows "dropped i s'"
proof (cases "e = RunMicrotask \<and> (\<exists>ws. enumerates s ws)")
  case True
  then obtain ws where ws: "enumerates s ws" "step RunMicrotask s = Some s'" using assms(2) by auto
  from enumerates_step [OF this] obtain r rest out where
    s': "s' = settle r out (updateDeviceMap ws (s\<lparr>microtasks := rest\<rparr>))" by blast
  let ?t = "s\<lparr>microtasks := rest\<rparr>"
  have inv: "registryInvariant ?t" using assms(1) by (simp add: dropped_def)
  have f: "idToDeviceMap s' = idToDeviceMap (updateDeviceMap ws ?t)"
    "nextFreeDeviceId s' = nextFreeDeviceId (updateDeviceMap ws ?t)"
    unfolding s' by (simp_all add: settle_def split: option.splits)
  have "i \<notin> fst ` set (idToDeviceMap s')"
  proof
    assume "i \<in> fst ` set (idToDeviceMap s')"
    then have "i \<in> fst ` set (idToDeviceMap (updateDeviceMap ws ?t))" by (simp only: f)
    from updateDeviceMap_registry(5) [OF inv this] assms(1) show False
      by (simp add: dropped_def)
  qed
  moreover have "nextFreeDeviceId s \<le> nextFreeDeviceId s'"
    using updateDeviceMap_frame [of ws ?t] by (simp add: f)
  moreover have "registryInvariant s'"
    using registryInvariant_step [OF _ assms(2)] assms(1) by (simp add: dropped_def)
  ultimately show ?thesis using assms(1) by (simp add: dropped_def)
next
  case False
  from registrySame_step [OF assms(2) False] assms(1) show ?thesis
    by (simp add: registrySame_def registryInvariant_def dropped_def)
qed

lemma dropped_run: "run es s = Some s' \<Longrightarrow> dropped i s \<Longrightarrow> dropped i s'"
  by (erule run_invariant) (auto intro: dropped_step)

lemma dropped_lookup:
  assumes "dropped i s"
  shows "getDeviceByIdOrThrow s i = Inl (NoDeviceWithId i)" "getDeviceId s w \<noteq> Some i"
proof -
  have "mapGet (idToDeviceMap s) i = None"
    using assms by (simp add: dropped_def mapGet_def map_of_eq_None_iff)
  then show "getDeviceByIdOrThrow s i = Inl (NoDeviceWithId i)"
    by (simp add: getDeviceByIdOrThrow_def)
  show "getDeviceId s w \<noteq> Some i"
  proof
    assume "getDeviceId s w = Some i"
    from getDeviceId_Some [OF this] assms show False by (force simp: dropped_def)
  qed
qed

text \<open>
  Claim C7. In a state that the adaptor can be in, let the next event be the job of
  \<^verbatim>\<open>listDevices\<close> that reconciles the device map with the snapshot \<open>ws\<close>. After it, the
  devices that have an identifier are those of \<open>ws\<close>; a device of \<open>ws\<close> that had an
  identifier has the same one; a device of \<open>ws\<close> that had none has one that was never
  given out before; and the identifier of a device that is not in \<open>ws\<close> names no device,
  neither then nor after any further events, so that every lookup of it fails. Every
  other event leaves the identifiers of all devices as they are, so that the identifiers
  before an enumeration are those that the previous enumeration left.
\<close>

theorem device_ids_across_enumerations:
  assumes "reachable s" "step e s = Some s1"
  shows "(\<forall>ws. e = RunMicrotask \<and> enumerates s ws \<longrightarrow>
            (\<forall>w. getDeviceId s1 w \<noteq> None \<longleftrightarrow> w \<in> set ws) \<and>
            (\<forall>w i. getDeviceId s w = Some i \<and> w \<in> set ws \<longrightarrow> getDeviceId s1 w = Some i) \<and>
            (\<forall>w. getDeviceId s w = None \<and> w \<in> set ws \<longrightarrow>
               (\<exists>j. getDeviceId s1 w = Some j \<and> nextFreeDeviceId s \<le> j)) \<and>
            (\<forall>w i. getDeviceId s w = Some i \<and> w \<notin> set ws \<longrightarrow>
               (\<forall>es s2. run es s1 = Some s2 \<longrightarrow>
                  getDeviceByIdOrThrow s2 i = Inl (NoDeviceWithId i) \<and>
                  (\<forall>w'. getDeviceId s2 w' \<noteq> Some i)))) \<and>
         (\<not> (e = RunMicrotask \<and> (\<exists>ws. enumerates s ws)) \<longrightarrow> getDeviceId s1 = getDeviceId s)"
proof (intro conjI allI impI)
  assume "\<not> (e = RunMicrotask \<and> (\<exists>ws. enumerates s ws))"
  from registrySame_step [OF assms(2) this] show "getDeviceId s1 = getDeviceId s"
    by (rule getDeviceId_registrySame)
next
  fix ws assume "e = RunMicrotask \<and> enumerates s ws"
  then have ws: "enumerates s ws" "step RunMicrotask s = Some s1" using assms(2) by auto
  from enumerates_step [OF this] obtain r rest out where
    s1: "s1 = settle r out (updateDeviceMap ws (s\<lparr>microtasks := rest\<rparr>))" by blast
  let ?t = "s\<lparr>microtasks := rest\<rparr>"
  have inv: "registryInvariant ?t" using reachable_registryInvariant [OF assms(1)] by simp
  have g: "getDeviceId s1 = getDeviceId (updateDeviceMap ws ?t)" unfolding s1 by simp
  have g0: "getDeviceId ?t = getDeviceId s" by simp
  show present: "getDeviceId s1 w \<noteq> None \<longleftrightarrow> w \<in> set ws" for w
    unfolding g by (rule updateDeviceMap_registry(2) [OF inv])
  show "getDeviceId s1 w = Some i" if "getDeviceId s w = Some i \<and> w \<in> set ws" for w i
    unfolding g using updateDeviceMap_registry(3) [OF inv, of w i ws] that by simp
  show "\<exists>j. getDeviceId s1 w = Some j \<and> nextFreeDeviceId s \<le> j"
    if w: "getDeviceId s w = None \<and> w \<in> set ws" for w
  proof -
    from present w obtain j where j: "getDeviceId s1 w = Some j" by auto
    have "nextFreeDeviceId s \<le> j"
      using updateDeviceMap_registry(6) [OF inv, of w ws j] w j by (simp add: g)
    with j show ?thesis by simp
  qed
  show "getDeviceByIdOrThrow s2 i = Inl (NoDeviceWithId i)"
    and "getDeviceId s2 w' \<noteq> Some i"
    if w: "getDeviceId s w = Some i \<and> w \<notin> set ws" and r: "run es s1 = Some s2" for w i es s2 w'
  proof -
    from w have "mapGet (idToDeviceMap (updateDeviceMap ws ?t)) i = None"
      using updateDeviceMap_registry(4) [OF inv, of w i ws] by simp
    moreover have "i < nextFreeDeviceId s1"
    proof -
      from w getDeviceId_Some [of s w i] reachable_registryInvariant [OF assms(1)]
      have "i < nextFreeDeviceId s" by (auto simp: registryInvariant_def)
      moreover have "nextFreeDeviceId s \<le> nextFreeDeviceId s1"
        unfolding s1 using updateDeviceMap_frame [of ws ?t] by (simp add: settle_def split: option.splits)
      ultimately show ?thesis by simp
    qed
    moreover have "registryInvariant s1"
      using registryInvariant_step [OF reachable_registryInvariant [OF assms(1)] assms(2)] .
    moreover have "idToDeviceMap s1 = idToDeviceMap (updateDeviceMap ws ?t)"
      unfolding s1 by (simp add: settle_def split: option.splits)
    ultimately have "dropped i s1"
      by (simp add: dropped_def mapGet_def map_of_eq_None_iff)
    from dropped_run [OF r this] have "dropped i s2" .
    from dropped_lookup [OF this]
    show "getDeviceByIdOrThrow s2 i = Inl (NoDeviceWithId i)" "getDeviceId s2 w' \<noteq> Some i"
      by simp_all
  qed
qed










lemma run_listed: "run enumeration (constructed exampleDevices) = Some listed"
  unfolding listed_def by (simp add: enumeration_def run_defs)

lemma reachable_listed: "reachable listed"
  unfolding reachable_def using run_listed by blast

lemma listed_fields:
  "idToDeviceMap listed = [(1, 0)]" "handles (deviceStates listed 0) = {}"
  "webusbDevice (deviceStates listed 0) = 7"
  "openOperationPromise (deviceStates listed 0) = None"
  "closeOperationPromise (deviceStates listed 0) = None"
  "callerRunning listed" "microtasks listed = []" "nextPromise listed = 2"
  "nextFreeDeviceHandle listed = 1"
  "hostCalls listed = [(Host 1, InListDevices, UsbGetDevices)]"
  unfolding listed_def by (simp_all add: enumeration_def run_defs)

lemma run_afterFailedClose: "run failedClose opened = Some afterFailedClose"
  unfolding afterFailedClose_def opened_def
  by (simp add: enumeration_def firstOpen_def failedClose_def run_defs)

lemma afterFailedClose_fields:
  "idToDeviceMap afterFailedClose = [(1, 0)]" "handles (deviceStates afterFailedClose 0) = {}"
  "openOperationPromise (deviceStates afterFailedClose 0) = None"
  "closeOperationPromise (deviceStates afterFailedClose 0) = Some (Host 6)"
  "settled (promises afterFailedClose (Host 6)) = Some (Rejects (HostError 1))"
  "callerRunning afterFailedClose" "microtasks afterFailedClose = []"
  "nextPromise afterFailedClose = 7"
  "hostCalls afterFailedClose =
     [(Host 1, InListDevices, UsbGetDevices), (Host 4, InOpenWebusbDevice 0, UsbOpen 7),
      (Host 6, InCloseDeviceHandle 0, UsbClose 7)]"
  unfolding afterFailedClose_def opened_def
  by (simp_all add: enumeration_def firstOpen_def failedClose_def run_defs)



lemma run_reenumerating:
  "run (firstSnapshot @ secondSnapshot) (constructed exampleDevices) = Some reenumerating"
  unfolding reenumerating_def by (simp add: firstSnapshot_def secondSnapshot_def run_defs)

lemma reachable_reenumerating: "reachable reenumerating"
  unfolding reachable_def using run_reenumerating by blast

lemma reenumerating_fields:
  "idToDeviceMap reenumerating = [(1, 0), (2, 1)]"
  "webusbDevice (deviceStates reenumerating 0) = 7"
  "webusbDevice (deviceStates reenumerating (Suc 0)) = 8"
  "\<not> callerRunning reenumerating"
  "microtasks reenumerating = [(ListDevices_resume (Result 2), Resolves (Devices [7, 9]))]"
  "nextFreeDeviceId reenumerating = 3" "nextDeviceState reenumerating = 2"
  unfolding reenumerating_def by (simp_all add: firstSnapshot_def secondSnapshot_def run_defs)

theorem device_ids_across_enumerations_witness:
  "reachable reenumerating \<and> step RunMicrotask reenumerating = Some reenumerated \<and>
   enumerates reenumerating [7, 9] \<and>
   getDeviceId reenumerating 7 = Some 1 \<and> getDeviceId reenumerated 7 = Some 1 \<and>
   getDeviceId reenumerating 8 = Some 2 \<and> getDeviceId reenumerated 8 = None \<and>
   getDeviceId reenumerating 9 = None \<and> getDeviceId reenumerated 9 \<noteq> None \<and>
   run [RunMicrotask, Request ListDevices] reenumerated \<noteq> None \<and>
   getDeviceByIdOrThrow (the (run [RunMicrotask, Request ListDevices] reenumerated)) 2
     = Inl (NoDeviceWithId 2) \<and>
   reachable listed \<and> step CallerReturns listed \<noteq> None \<and>
   getDeviceId (the (step CallerReturns listed)) = getDeviceId listed"
proof -
  have st: "step RunMicrotask reenumerating = Some reenumerated"
    unfolding reenumerated_def by (simp add: reenumerating_fields)
  have en: "enumerates reenumerating [7, 9]"
    by (simp add: enumerates_def reenumerating_fields)
  have g: "getDeviceId reenumerating 7 = Some 1" "getDeviceId reenumerating 8 = Some 2"
    "getDeviceId reenumerating 9 = None"
    by (simp_all add: getDeviceId_def reenumerating_fields)
  let ?es = "[RunMicrotask, Request ListDevices]"
  have e: "run ?es reenumerated = Some (the (run ?es reenumerated))"
    unfolding reenumerated_def reenumerating_def
    by (simp add: firstSnapshot_def secondSnapshot_def run_defs)
  have c: "step CallerReturns listed = Some (the (step CallerReturns listed))"
    by (simp add: listed_fields)
  from device_ids_across_enumerations [OF reachable_reenumerating st, THEN conjunct1, THEN spec, of "[7, 9]"] en
  have k: "\<forall>w. getDeviceId reenumerated w \<noteq> None \<longleftrightarrow> w \<in> set [7, 9]"
    "\<forall>w i. getDeviceId reenumerating w = Some i \<and> w \<in> set [7, 9] \<longrightarrow> getDeviceId reenumerated w = Some i"
    "\<forall>w i. getDeviceId reenumerating w = Some i \<and> w \<notin> set [7, 9] \<longrightarrow>
               (\<forall>es s2. run es reenumerated = Some s2 \<longrightarrow>
                  getDeviceByIdOrThrow s2 i = Inl (NoDeviceWithId i) \<and>
                  (\<forall>w'. getDeviceId s2 w' \<noteq> Some i))"
    by simp_all
  from device_ids_across_enumerations [OF reachable_listed c, THEN conjunct2]
  have same: "getDeviceId (the (step CallerReturns listed)) = getDeviceId listed" by simp
  from k(1) [THEN spec, of 8] k(1) [THEN spec, of 9]
  have a: "getDeviceId reenumerated 8 = None" "getDeviceId reenumerated 9 \<noteq> None" by simp_all
  from k(2) g(1) have b: "getDeviceId reenumerated 7 = Some 1" by auto
  from k(3) [THEN spec, of 8, THEN spec, of 2] g(2)
  have "\<forall>es s2. run es reenumerated = Some s2 \<longrightarrow>
          getDeviceByIdOrThrow s2 2 = Inl (NoDeviceWithId 2) \<and> (\<forall>w'. getDeviceId s2 w' \<noteq> Some 2)"
    by (simp del: run.simps step.simps)
  from this [THEN spec, of ?es, THEN spec, of "the (run ?es reenumerated)"] e
  have d: "getDeviceByIdOrThrow (the (run ?es reenumerated)) 2 = Inl (NoDeviceWithId 2)"
    by (simp del: run.simps step.simps)
  from e have "run ?es reenumerated \<noteq> None" by (metis option.distinct(1))
  moreover from c have "step CallerReturns listed \<noteq> None" by (metis option.distinct(1))
  ultimately show ?thesis
    using reachable_reenumerating reachable_listed st en g a b d same
    by (simp del: run.simps step.simps)
qed

theorem closed_handle_stays_closed_witness:
  "reachable opened \<and> getDeviceByIdOrThrow opened 1 = Inr 0 \<and> 1 \<in> handles (deviceStates opened 0) \<and>
   run failedClose opened = Some afterFailedClose \<and>
   settled (promises afterFailedClose (Result 5)) = Some (Rejects (HostError 1)) \<and>
   1 \<notin> handles (deviceStates afterFailedClose 0) \<and>
   getDeviceByIdOrThrow afterFailedClose 1 = Inr 0 \<and>
   getDeviceByIdAndHandleOrThrow afterFailedClose 1 1 = Inl (NoDeviceHandle 1) \<and>
   settled (promises (snd (call (ResetDevice 1 1) afterFailedClose))
              (fst (call (ResetDevice 1 1) afterFailedClose)))
     = Some (Rejects (NoDeviceHandle 1))"
proof -
  have l: "getDeviceByIdOrThrow opened 1 = Inr 0"
    by (simp add: getDeviceByIdOrThrow_def mapGet_def opened_fields)
  have h: "1 \<in> handles (deviceStates opened 0)" by (simp add: opened_fields)
  let ?s1 = "snd (call (CloseDeviceHandle 1 1) opened)"
  let ?es = "[CallerReturns, HostSettles (Host 6) (Rejects (HostError 1)), RunMicrotask, RunMicrotask]"
  have st: "step (Request (CloseDeviceHandle 1 1)) opened = Some ?s1"
    by (simp add: opened_fields)
  have "run (Request (CloseDeviceHandle 1 1) # ?es) opened = Some afterFailedClose"
    using run_afterFailedClose by (simp only: failedClose_def)
  then have r: "run ?es ?s1 = Some afterFailedClose"
    by (subst (asm) run.simps(2)) (simp only: st option.case)
  have k: "getDeviceByIdOrThrow afterFailedClose 1 = Inr 0"
    by (simp add: getDeviceByIdOrThrow_def mapGet_def afterFailedClose_fields)
  have p: "settled (promises afterFailedClose (Result 5)) = Some (Rejects (HostError 1))"
    unfolding afterFailedClose_def opened_def
    by (simp add: enumeration_def firstOpen_def failedClose_def run_defs)
  note closed = closed_handle_stays_closed [OF reachable_opened l h st r]
  note gone = closed [THEN conjunct2, THEN conjunct2, THEN conjunct1]
  note every = closed [THEN conjunct2, THEN conjunct2, THEN conjunct2]
  from every [THEN spec, of 1, THEN spec, of "ResetDevice 1 1"] k gone
  have "1 \<notin> handles (deviceStates afterFailedClose 0)"
    "getDeviceByIdAndHandleOrThrow afterFailedClose 1 1 = Inl (NoDeviceHandle 1)"
    "settled (promises (snd (call (ResetDevice 1 1) afterFailedClose))
              (fst (call (ResetDevice 1 1) afterFailedClose)))
     = Some (Rejects (NoDeviceHandle 1))"
    by simp_all
  then show ?thesis using reachable_opened l h run_afterFailedClose p k
    by (simp del: run.simps step.simps)
qed

end
